theory Spec2Isabelle
  imports Complex_Main "HOL-Library.Word"
begin

unbundle bit_operations_syntax

section \<open>JavaScript strings\<close>

text \<open>
  A JavaScript string is a sequence of UTF-16 code units: \<open>charCodeAt\<close>, \<open>length\<close>
  and a regular expression without the \<open>u\<close> flag all work on code units.
  \<open>js\<close> writes an ASCII literal as such a string.
\<close>

type_synonym code_unit = "16 word"
type_synonym jsstring = "code_unit list"

definition js :: "string \<Rightarrow> jsstring" where
  "js s = map of_char s"

text \<open>Line terminators and white space of ECMAScript (what \<open>\s\<close> and \<open>trim\<close> strip).\<close>

definition isLineTerminator :: "code_unit \<Rightarrow> bool" where
  "isLineTerminator c = (c = 10 \<or> c = 13 \<or> c = 0x2028 \<or> c = 0x2029)"

definition isWhiteSpace :: "code_unit \<Rightarrow> bool" where
  "isWhiteSpace c =
     (c = 9 \<or> c = 10 \<or> c = 11 \<or> c = 12 \<or> c = 13 \<or> c = 32 \<or> c = 0xA0 \<or> c = 0x1680
      \<or> (0x2000 \<le> c \<and> c \<le> 0x200A)
      \<or> c = 0x2028 \<or> c = 0x2029 \<or> c = 0x202F \<or> c = 0x205F \<or> c = 0x3000 \<or> c = 0xFEFF)"

text \<open>\<open>\w\<close>: ASCII letters, digits and the underscore.\<close>

definition isWordChar :: "code_unit \<Rightarrow> bool" where
  "isWordChar c =
     ((48 \<le> c \<and> c \<le> 57) \<or> (65 \<le> c \<and> c \<le> 90) \<or> c = 95 \<or> (97 \<le> c \<and> c \<le> 122))"

definition trim :: "jsstring \<Rightarrow> jsstring" where
  "trim s = rev (dropWhile isWhiteSpace (rev (dropWhile isWhiteSpace s)))"

section \<open>Regular expressions\<close>

text \<open>
  The two patterns of complexityAnalyzer.ts use literals, the classes \<open>\s\<close>, \<open>\w\<close>
  and \<open>[^)]\<close>, greedy \<open>*\<close> and \<open>+\<close> on a class, an optional group, alternation, and
  the assertions \<open>\b\<close> and (with the \<open>m\<close> flag) \<open>^\<close>. A matcher state is the code
  unit before the current position (none at the start of the input) and the input
  still to read. \<open>ends r st\<close> lists the states in which a match of \<open>r\<close> from \<open>st\<close> can
  end, in the order in which a backtracking matcher tries them: the first one is the
  match JavaScript reports.
\<close>

datatype cclass = Ch code_unit | NotCh code_unit | Space | Word

fun inClass :: "cclass \<Rightarrow> code_unit \<Rightarrow> bool" where
  "inClass (Ch a) c = (c = a)"
| "inClass (NotCh a) c = (c \<noteq> a)"
| "inClass Space c = isWhiteSpace c"
| "inClass Word c = isWordChar c"

datatype regex =
    Eps
  | Cls cclass
  | Seq regex regex
  | Alt regex regex
  | Star cclass
  | Plus cclass
  | Opt regex
  | WordBoundary
  | LineStart

type_synonym mstate = "code_unit option \<times> jsstring"

fun starEnds :: "cclass \<Rightarrow> code_unit option \<Rightarrow> jsstring \<Rightarrow> mstate list" where
  "starEnds k p [] = [(p, [])]"
| "starEnds k p (c # cs) =
     (if inClass k c then starEnds k (Some c) cs @ [(p, c # cs)] else [(p, c # cs)])"

definition isWordAt :: "code_unit option \<Rightarrow> bool" where
  "isWordAt p = (case p of None \<Rightarrow> False | Some c \<Rightarrow> isWordChar c)"

definition nextUnit :: "jsstring \<Rightarrow> code_unit option" where
  "nextUnit s = (case s of [] \<Rightarrow> None | c # cs \<Rightarrow> Some c)"

fun ends :: "regex \<Rightarrow> mstate \<Rightarrow> mstate list" where
  "ends Eps st = [st]"
| "ends (Cls k) (p, s) =
     (case s of [] \<Rightarrow> [] | c # cs \<Rightarrow> if inClass k c then [(Some c, cs)] else [])"
| "ends (Seq a b) st = concat (map (ends b) (ends a st))"
| "ends (Alt a b) st = ends a st @ ends b st"
| "ends (Star k) (p, s) = starEnds k p s"
| "ends (Plus k) (p, s) =
     (case s of [] \<Rightarrow> [] | c # cs \<Rightarrow> if inClass k c then starEnds k (Some c) cs else [])"
| "ends (Opt a) st = ends a st @ [st]"
| "ends WordBoundary (p, s) = (if isWordAt p \<noteq> isWordAt (nextUnit s) then [(p, s)] else [])"
| "ends LineStart (p, s) =
     (case p of None \<Rightarrow> [(p, s)] | Some c \<Rightarrow> if isLineTerminator c then [(p, s)] else [])"

text \<open>\<open>RegExp.prototype.test\<close> of a pattern without the \<open>g\<close> flag: a match from some position.\<close>

fun searchFrom :: "regex \<Rightarrow> code_unit option \<Rightarrow> jsstring \<Rightarrow> bool" where
  "searchFrom r p [] = (ends r (p, []) \<noteq> [])"
| "searchFrom r p (c # cs) = (ends r (p, c # cs) \<noteq> [] \<or> searchFrom r (Some c) cs)"

definition regexTest :: "regex \<Rightarrow> jsstring \<Rightarrow> bool" where
  "regexTest r s = searchFrom r None s"

fun lit :: "string \<Rightarrow> regex" where
  "lit [] = Eps"
| "lit [c] = Cls (Ch (of_char c))"
| "lit (c # cs) = Seq (Cls (Ch (of_char c))) (lit cs)"

fun seqs :: "regex list \<Rightarrow> regex" where
  "seqs [] = Eps"
| "seqs [r] = r"
| "seqs (r # rs) = Seq r (seqs rs)"

text \<open>
  The group shared by both patterns:
  \<^verbatim>\<open>(function\s+\w+|const\s+\w+\s*=\s*(?:async\s+)?(?:function|\([^)]*\)\s*=>)|\w+\s*\([^)]*\)\s*\{)\<close>
\<close>

definition parenList :: regex where
  "parenList = seqs [Cls (Ch 40), Star (NotCh 41), Cls (Ch 41)]"

definition functionGroup :: regex where
  "functionGroup =
     Alt (Alt
       (seqs [lit ''function'', Plus Space, Plus Word])
       (seqs [lit ''const'', Plus Space, Plus Word, Star Space, Cls (Ch 61), Star Space,
              Opt (seqs [lit ''async'', Plus Space]),
              Alt (lit ''function'') (seqs [parenList, Star Space, lit ''=>''])]))
       (seqs [Plus Word, Star Space, parenList, Star Space, Cls (Ch 123)])"

text \<open>getFunctionAtPosition, line 176: \<^verbatim>\<open>/\b(...)/\<close>.\<close>

definition functionRegex :: regex where
  "functionRegex = Seq WordBoundary functionGroup"

text \<open>updateInlineDecorations, line 299: \<^verbatim>\<open>/^[\s]*(...)/gm\<close>.\<close>

definition functionRegexGM :: regex where
  "functionRegexGM = seqs [LineStart, Star Space, functionGroup]"

section \<open>Documents\<close>

datatype EndOfLine = LF | CRLF

fun eolText :: "EndOfLine \<Rightarrow> jsstring" where
  "eolText LF = [10]"
| "eolText CRLF = [13, 10]"

record document =
  lines :: "jsstring list"
  eol :: EndOfLine

record position =
  line :: nat
  character :: nat

record range =
  rstart :: position
  rend :: position

definition lineCount :: "document \<Rightarrow> nat" where
  "lineCount d = length (lines d)"

definition lineText :: "document \<Rightarrow> nat \<Rightarrow> jsstring" where
  "lineText d i = lines d ! i"

fun joinLines :: "jsstring \<Rightarrow> jsstring list \<Rightarrow> jsstring" where
  "joinLines e [] = []"
| "joinLines e [l] = l"
| "joinLines e (l # ls) = l @ e @ joinLines e ls"

text \<open>\<open>document.getText()\<close>: the lines joined by the document's line ending.\<close>

definition getText :: "document \<Rightarrow> jsstring" where
  "getText d = joinLines (eolText (eol d)) (lines d)"

text \<open>\<open>document.getText(range)\<close> for a range inside the document.\<close>

definition getTextRange :: "document \<Rightarrow> range \<Rightarrow> jsstring" where
  "getTextRange d r =
     (let sl = line (rstart r); sc = character (rstart r);
          el = line (rend r); ec = character (rend r)
      in case take (Suc (el - sl)) (drop sl (lines d)) of
           [] \<Rightarrow> []
         | [l] \<Rightarrow> take (ec - sc) (drop sc l)
         | l # ls \<Rightarrow> joinLines (eolText (eol d)) (drop sc l # butlast ls @ [take ec (last ls)]))"

text \<open>
  \<open>document.positionAt(offset)\<close>: the line whose text or line ending holds the offset,
  the character clamped to the length of the line.
\<close>

fun positionIn :: "nat \<Rightarrow> jsstring list \<Rightarrow> nat \<Rightarrow> nat \<Rightarrow> position" where
  "positionIn e [] n off = \<lparr>line = n, character = 0\<rparr>"
| "positionIn e [l] n off = \<lparr>line = n, character = min off (length l)\<rparr>"
| "positionIn e (l # ls) n off =
     (if off < length l + e then \<lparr>line = n, character = min off (length l)\<rparr>
      else positionIn e ls (Suc n) (off - (length l + e)))"

definition positionAt :: "document \<Rightarrow> nat \<Rightarrow> position" where
  "positionAt d off = positionIn (length (eolText (eol d))) (lines d) 0 off"

section \<open>The boundary locator: getFunctionAtPosition\<close>

datatype vs_error = IllegalLine

text \<open>Lines 188-199: the scan from the position's line towards the start of the document.\<close>

fun findStart :: "document \<Rightarrow> nat \<Rightarrow> nat \<Rightarrow> nat option" where
  "findStart d pl 0 =
     (if regexTest functionRegex (lineText d 0) then Some 0 else None)"
| "findStart d pl (Suc i) =
     (if regexTest functionRegex (lineText d (Suc i)) then Some (Suc i)
      else if Suc i < pl \<and> trim (lineText d (Suc i)) = [] then None
      else findStart d pl i)"

text \<open>
  Lines 208-222: one line of the brace count. The result says whether the count was zero
  after some character of a line after startLine, and gives the count after the line.
  The loop of the source steps through code points; a pair of surrogates is neither
  brace, and testing the same count twice changes nothing, so stepping through code
  units gives the same result.
\<close>

fun scanLine :: "int \<Rightarrow> bool \<Rightarrow> jsstring \<Rightarrow> bool \<times> int" where
  "scanLine braceCount later [] = (False, braceCount)"
| "scanLine braceCount later (c # cs) =
     (let b1 = (if c = 123 then braceCount + 1 else braceCount);
          b2 = (if c = 125 then b1 - 1 else b1)
      in if b2 = 0 \<and> later then (True, b2) else scanLine b2 later cs)"

text \<open>Lines 206-225: the lines from index i on, with the count so far.\<close>

fun scanLines :: "nat \<Rightarrow> nat \<Rightarrow> int \<Rightarrow> jsstring list \<Rightarrow> range option" where
  "scanLines startLine i braceCount [] = None"
| "scanLines startLine i braceCount (l # ls) =
     (case scanLine braceCount (startLine < i) l of
        (True, b) \<Rightarrow>
          Some \<lparr>rstart = \<lparr>line = startLine, character = 0\<rparr>,
                rend = \<lparr>line = i, character = length l\<rparr>\<rparr>
      | (False, b) \<Rightarrow> scanLines startLine (Suc i) b ls)"

definition getFunctionAtPosition :: "document \<Rightarrow> position \<Rightarrow> vs_error + range option" where
  "getFunctionAtPosition d p =
     (if lineCount d \<le> line p then Inl IllegalLine
      else if \<not> regexTest functionRegex (lineText d (line p)) then Inr None
      else case findStart d (line p) (line p) of
             None \<Rightarrow> Inr None
           | Some startLine \<Rightarrow> Inr (scanLines startLine startLine 0 (drop startLine (lines d))))"

subsection \<open>The running brace count, for stating what the locator finds\<close>

text \<open>
  The count of a text: its opening braces minus its closing braces. \<open>runningCount\<close> is
  the count, started at zero at the beginning of line startLine, after the first k
  characters of line i.
\<close>

definition braceDelta :: "jsstring \<Rightarrow> int" where
  "braceDelta s = int (count_list s 123) - int (count_list s 125)"

definition runningCount :: "document \<Rightarrow> nat \<Rightarrow> nat \<Rightarrow> nat \<Rightarrow> int" where
  "runningCount d startLine i k =
     braceDelta (concat (take (i - startLine) (drop startLine (lines d))))
     + braceDelta (take k (lineText d i))"

text \<open>
  The closing brace is missing: after no character of any line after startLine is the
  running count zero (these are the places where line 215 tests it).
\<close>

definition neverReturnsToZero :: "document \<Rightarrow> nat \<Rightarrow> bool" where
  "neverReturnsToZero d startLine =
     list_all (\<lambda>i. list_all (\<lambda>k. runningCount d startLine i k \<noteq> 0)
                      [1 ..< Suc (length (lineText d i))])
       [Suc startLine ..< lineCount d]"

text \<open>Starting from count b, the count is zero after some character of line l.\<close>

definition zeroAfter :: "int \<Rightarrow> jsstring \<Rightarrow> bool" where
  "zeroAfter b l = (\<exists>k. 0 < k \<and> k \<le> length l \<and> b + braceDelta (take k l) = 0)"

section \<open>The cache key: getCacheKey\<close>

text \<open>
  Lines 230-235. \<open>hash << 5\<close> and \<open>hash & hash\<close> convert to a 32-bit integer, and the
  subtraction and addition between them are exact, so hash is the 32-bit word
  computed here after every round.
\<close>

fun hashLoop :: "32 word \<Rightarrow> jsstring \<Rightarrow> 32 word" where
  "hashLoop hash [] = hash"
| "hashLoop hash (c # cs) =
     (let h1 = (push_bit 5 hash - hash) + ucast c;
          h2 = h1 AND h1
      in hashLoop h2 cs)"

text \<open>\<open>Number.prototype.toString\<close> of an integer: its decimal digits, with a sign.\<close>

fun digits :: "nat \<Rightarrow> jsstring" where
  "digits n = (if n < 10 then [of_nat (48 + n)] else digits (n div 10) @ [of_nat (48 + n mod 10)])"

declare digits.simps [simp del]

definition toString :: "int \<Rightarrow> jsstring" where
  "toString i = (if i < 0 then 45 # digits (nat (- i)) else digits (nat i))"

definition getCacheKey :: "jsstring \<Rightarrow> jsstring" where
  "getCacheKey c = toString (sint (hashLoop 0 c))"

section \<open>The annotation cache\<close>

text \<open>
  The result of an entry is the data of a response as it arrived: line 44 casts it to
  ComplexityResult without looking at it, so at run time it is any JSON value.
\<close>

datatype json =
    JNull
  | JBool bool
  | JNumber real
  | JString jsstring
  | JArray "json list"
  | JObject "(jsstring \<times> json) list"

record CachedComplexity =
  result :: json
  code :: jsstring
  timestamp :: int

type_synonym cache = "jsstring \<rightharpoonup> CachedComplexity"

text \<open>Line 15; times are milliseconds, as \<open>Date.now()\<close> gives them.\<close>

definition CACHE_DURATION :: int where
  "CACHE_DURATION = 5 * 60 * 1000"

text \<open>
  The lookup of lines 143-147 and 309-312: the key of the text, \<open>Map.get\<close>, and the
  test of the entry's age against CACHE_DURATION.
\<close>

definition cacheLookup :: "cache \<Rightarrow> int \<Rightarrow> jsstring \<Rightarrow> json option" where
  "cacheLookup m now functionCode =
     (case m (getCacheKey functionCode) of
        None \<Rightarrow> None
      | Some cached \<Rightarrow>
          if now - timestamp cached < CACHE_DURATION then Some (result cached) else None)"

text \<open>The store of lines 154-158: \<open>Map.set\<close> under the key of the text.\<close>

definition cacheStore :: "cache \<Rightarrow> jsstring \<Rightarrow> json \<Rightarrow> int \<Rightarrow> cache" where
  "cacheStore m functionCode r now =
     m(getCacheKey functionCode \<mapsto> \<lparr>result = r, code = functionCode, timestamp = now\<rparr>)"

section \<open>The editor's side: notifications, console, requests\<close>

text \<open>
  What the extension does to its surroundings is kept as a trace in the state: the
  notifications shown (showErrorMessage, showInformationMessage, withProgress), the
  entries written with console.error, the code texts posted to the classifier, and the
  decorations set on the active editor. The two fields of the ComplexityAnalyzer object
  that change, inlineEnabled and complexityCache, are part of the same record.
\<close>

record axios_error =
  message :: jsstring
  detail :: "jsstring option"

datatype 'd axios_outcome = Resolved 'd | Rejected axios_error

text \<open>What a function of the analyzer can throw.\<close>

datatype thrown = LineError vs_error | TypeError | RequestError axios_error

datatype notice_text = Text jsstring | AnalysisResultText json

datatype notification =
    ShowError jsstring
  | ShowInformation notice_text "jsstring list"
  | ShowProgress jsstring

datatype log_entry =
    ApiErrorLog axios_error
  | HoverFailedLog thrown
  | AnalysisFailedLog axios_error

record decoration =
  anchor :: range
  label :: "json option"
  color :: jsstring

record state =
  inlineEnabled :: bool
  complexityCache :: cache
  decorations :: "decoration list"
  notifications :: "notification list"
  console :: "log_entry list"
  requests :: "jsstring list"

section \<open>The classifier client: ApiClient.analyzeCode\<close>

text \<open>
  \<open>post\<close> stands for \<open>axios.post(apiUrl/analyze, {code}, {headers})\<close>: what the
  service answers to a code text, a response with its data or a rejection. Line 47:
  \<open>error.response?.data?.detail || error.message\<close>, where an absent or empty detail
  is falsy.
\<close>

definition errorMsg :: "axios_error \<Rightarrow> jsstring" where
  "errorMsg err = (case detail err of None \<Rightarrow> message err
                   | Some dt \<Rightarrow> if dt = [] then message err else dt)"

definition apiErrorMessage :: "axios_error \<Rightarrow> jsstring" where
  "apiErrorMessage err = js ''API Error: '' @ errorMsg err @ js ''. Check your API key in settings.''"

text \<open>
  Lines 29-53. \<open>response.data as ComplexityResult\<close> is a cast of the type checker
  and does nothing when the program runs, so the function is the same for every type
  of data; the error thrown again at line 51 is the result \<open>Inl\<close>.
\<close>

definition analyzeCode ::
  "(jsstring \<Rightarrow> 'd axios_outcome) \<Rightarrow> jsstring \<Rightarrow> state \<Rightarrow> (axios_error + 'd) \<times> state" where
  "analyzeCode post c s =
     (let s1 = s\<lparr>requests := requests s @ [c]\<rparr>
      in case post c of
           Resolved dat \<Rightarrow> (Inr dat, s1)
         | Rejected err \<Rightarrow>
             (Inl err, s1\<lparr>console := console s1 @ [ApiErrorLog err],
                          notifications := notifications s1 @ [ShowError (apiErrorMessage err)]\<rparr>))"

text \<open>What the interface ComplexityResult (apiClient.ts, lines 4-16) asks of a JSON value.\<close>

definition isNumber :: "json option \<Rightarrow> bool" where
  "isNumber v = (case v of Some (JNumber x) \<Rightarrow> True | _ \<Rightarrow> False)"

definition isComplexityName :: "json option \<Rightarrow> bool" where
  "isComplexityName v =
     (case v of
        Some (JString x) \<Rightarrow> x = js ''simple'' \<or> x = js ''moderate'' \<or> x = js ''complex''
      | _ \<Rightarrow> False)"

definition isMetrics :: "json option \<Rightarrow> bool" where
  "isMetrics v =
     (case v of
        Some (JObject fs) \<Rightarrow>
          isNumber (map_of fs (js ''loc'')) \<and> isNumber (map_of fs (js ''cyclomatic''))
          \<and> isNumber (map_of fs (js ''nesting'')) \<and> isNumber (map_of fs (js ''loops''))
          \<and> isNumber (map_of fs (js ''conditionals''))
      | _ \<Rightarrow> False)"

definition isString :: "json \<Rightarrow> bool" where
  "isString v = (case v of JString x \<Rightarrow> True | _ \<Rightarrow> False)"

definition isSuggestions :: "json option \<Rightarrow> bool" where
  "isSuggestions v =
     (case v of
        None \<Rightarrow> True
      | Some (JObject fs) \<Rightarrow> list_all (\<lambda>kv. isString (snd kv)) fs
      | _ \<Rightarrow> False)"

definition isComplexityResult :: "json \<Rightarrow> bool" where
  "isComplexityResult v =
     (case v of
        JObject fs \<Rightarrow>
          isComplexityName (map_of fs (js ''complexity''))
          \<and> isNumber (map_of fs (js ''confidence''))
          \<and> isMetrics (map_of fs (js ''metrics''))
          \<and> isNumber (map_of fs (js ''processing_time_ms''))
          \<and> isSuggestions (map_of fs (js ''suggestions''))
      | _ \<Rightarrow> False)"

section \<open>Reading a result\<close>

text \<open>
  \<open>value.name\<close> for the names the analyzer reads: a TypeError when the value is
  undefined or null, the member (or undefined) of an object, and undefined for any other
  value. An undefined value is \<open>None\<close>.
\<close>

definition property :: "json option \<Rightarrow> jsstring \<Rightarrow> thrown + json option" where
  "property v name =
     (case v of
        None \<Rightarrow> Inl TypeError
      | Some JNull \<Rightarrow> Inl TypeError
      | Some (JObject fs) \<Rightarrow> Inr (map_of fs name)
      | Some w \<Rightarrow> Inr None)"

text \<open>\<open>value.toUpperCase()\<close>: only a string has the method.\<close>

definition callToUpperCase :: "json option \<Rightarrow> thrown + unit" where
  "callToUpperCase v = (case v of Some (JString x) \<Rightarrow> Inr () | _ \<Rightarrow> Inl TypeError)"

section \<open>The hover provider\<close>

text \<open>
  Lines 239-265. The function reads \<open>result.complexity\<close>, calls \<open>toUpperCase\<close> on
  it and reads \<open>result.metrics.loc\<close>; each of these can throw. What it formats
  besides cannot, and the hover it builds is written as the result it shows.
\<close>

datatype hover = Hover json

definition createHoverMarkdown :: "json \<Rightarrow> thrown + hover" where
  "createHoverMarkdown r =
     (case property (Some r) (js ''complexity'') of
        Inl e \<Rightarrow> Inl e
      | Inr c \<Rightarrow>
          (case callToUpperCase c of
             Inl e \<Rightarrow> Inl e
           | Inr u \<Rightarrow>
               (case property (Some r) (js ''metrics'') of
                  Inl e \<Rightarrow> Inl e
                | Inr m \<Rightarrow>
                    (case property m (js ''loc'') of
                       Inl e \<Rightarrow> Inl e
                     | Inr l \<Rightarrow> Inr (Hover r)))))"

text \<open>
  Lines 136-164. \<open>now1\<close> is the clock at the lookup of line 147, \<open>now2\<close> the clock at
  the store of line 157, after the request has come back. The hover of a cached result
  is built outside the try block (line 148), so what createHoverMarkdown throws there
  leaves the provider; after a request it is built inside (line 159), after the store,
  and what it throws is caught and logged like a rejection of the request.
\<close>

definition provideHover ::
  "(jsstring \<Rightarrow> json axios_outcome) \<Rightarrow> int \<Rightarrow> int \<Rightarrow> document \<Rightarrow> position
     \<Rightarrow> state \<Rightarrow> (thrown + hover option) \<times> state" where
  "provideHover post now1 now2 d p s =
     (case getFunctionAtPosition d p of
        Inl e \<Rightarrow> (Inl (LineError e), s)
      | Inr None \<Rightarrow> (Inr None, s)
      | Inr (Some functionRange) \<Rightarrow>
          (let functionCode = getTextRange d functionRange
           in case cacheLookup (complexityCache s) now1 functionCode of
                Some r \<Rightarrow>
                  (case createHoverMarkdown r of
                     Inl e \<Rightarrow> (Inl e, s)
                   | Inr h \<Rightarrow> (Inr (Some h), s))
              | None \<Rightarrow>
                  (case analyzeCode post functionCode s of
                     (Inr r, s1) \<Rightarrow>
                       (let s2 = s1\<lparr>complexityCache :=
                                     cacheStore (complexityCache s1) functionCode r now2\<rparr>
                        in case createHoverMarkdown r of
                             Inl e \<Rightarrow> (Inr None, s2\<lparr>console := console s2 @ [HoverFailedLog e]\<rparr>)
                           | Inr h \<Rightarrow> (Inr (Some h), s2))
                   | (Inl err, s1) \<Rightarrow>
                       (Inr None,
                        s1\<lparr>console := console s1 @ [HoverFailedLog (RequestError err)]\<rparr>))))"

section \<open>The scheduler pass: updateInlineDecorations\<close>

text \<open>
  The loop of lines 303-317 calls \<open>exec\<close> on the pattern with the \<open>g\<close> flag: each
  search starts where the match before it ended, and \<open>match.index\<close> is where the match
  starts. \<open>findMatch\<close> is one such search from the position with index i.
\<close>

fun findMatch :: "regex \<Rightarrow> nat \<Rightarrow> code_unit option \<Rightarrow> jsstring \<Rightarrow> (nat \<times> mstate) option" where
  "findMatch r i p [] = (case ends r (p, []) of [] \<Rightarrow> None | e # es \<Rightarrow> Some (i, e))"
| "findMatch r i p (c # cs) =
     (case ends r (p, c # cs) of
        [] \<Rightarrow> findMatch r (Suc i) (Some c) cs
      | e # es \<Rightarrow> Some (i, e))"

text \<open>
  A pattern that cannot match the empty string: every match of it moves the search
  forward, which is why the loop ends.
\<close>

fun consuming :: "regex \<Rightarrow> bool" where
  "consuming (Cls k) = True"
| "consuming (Plus k) = True"
| "consuming (Seq a b) = (consuming a \<or> consuming b)"
| "consuming (Alt a b) = (consuming a \<and> consuming b)"
| "consuming r = False"

text \<open>The indices of all matches in a text of length n, from a matcher state on.\<close>

function matchIndices :: "nat \<Rightarrow> mstate \<Rightarrow> nat list" where
  "matchIndices n (p, s) =
     (case findMatch functionRegexGM (n - length s) p s of
        None \<Rightarrow> []
      | Some (i, st') \<Rightarrow> i # matchIndices n st')"
  by pat_completeness auto
termination
proof (relation "measure (\<lambda>(n, st). length (snd st))")
  show "wf (measure (\<lambda>(n, st). length (snd st)))" by simp
next
  fix n :: nat and p :: "code_unit option" and s :: jsstring and x2 :: "nat \<times> mstate"
    and i :: nat and st' :: mstate
  assume found: "findMatch functionRegexGM (n - length s) p s = Some x2" and x2: "(i, st') = x2"
  have star: "length (snd e) \<le> length u" if "e \<in> set (starEnds k q u)" for e k q u
    using that by (induction k q u rule: starEnds.induct) (auto split: if_splits)
  have shorter: "length (snd e) \<le> length (snd st)
      \<and> (consuming r \<longrightarrow> length (snd e) < length (snd st))"
    if "e \<in> set (ends r st)" for e r st
    using that
  proof (induction r arbitrary: st e)
    case (Cls k)
    then show ?case by (cases st) (auto split: list.splits if_splits)
  next
    case (Seq a b)
    from Seq.prems obtain m where m: "m \<in> set (ends a st)" "e \<in> set (ends b m)"
      by auto
    from Seq.IH(1) [OF m(1)] Seq.IH(2) [OF m(2)] show ?case by auto
  next
    case (Alt a b)
    from Alt.prems have "e \<in> set (ends a st) \<or> e \<in> set (ends b st)" by auto
    with Alt.IH(1) [of e st] Alt.IH(2) [of e st] show ?case by auto
  next
    case (Star k)
    then show ?case by (cases st) (auto dest: star)
  next
    case (Plus k)
    then show ?case
      by (cases st) (auto split: list.splits if_splits dest: star)
  next
    case (Opt a)
    from Opt.prems have "e \<in> set (ends a st) \<or> e = st" by auto
    with Opt.IH [of e st] show ?case by auto
  next
    case WordBoundary
    then show ?case by (cases st) (auto split: if_splits)
  next
    case LineStart
    then show ?case by (cases st) (auto split: option.splits if_splits)
  qed simp
  have moves: "length (snd e) < length u"
    if "findMatch r j q u = Some (k, e)" and "consuming r" for r j q u k e
    using that
  proof (induction r j q u rule: findMatch.induct)
    case (1 r j q)
    then obtain es where "ends r (q, []) = e # es"
      by (auto split: list.splits)
    then have "e \<in> set (ends r (q, []))" by simp
    with shorter [of e r "(q, [])"] 1(2) show ?case by simp
  next
    case (2 r j q c cs)
    show ?case
    proof (cases "ends r (q, c # cs)")
      case Nil
      with 2 show ?thesis by fastforce
    next
      case (Cons e' es)
      with 2(2) have "e' = e" by simp
      with Cons have "e \<in> set (ends r (q, c # cs))" by simp
      with shorter [of e r "(q, c # cs)"] 2(3) show ?thesis by simp
    qed
  qed
  have "consuming functionRegexGM"
    by (simp add: functionRegexGM_def functionGroup_def parenList_def)
  moreover from found x2 have "findMatch functionRegexGM (n - length s) p s = Some (i, st')"
    by simp
  ultimately have "length (snd st') < length s" using moves by blast
  then show "((n, st'), (n, (p, s))) \<in> measure (\<lambda>(n, st). length (snd st))" by simp
qed

declare matchIndices.simps [simp del]

text \<open>
  Lines 322-337: the marker sits at the start of the range; its text and colour follow
  \<open>result.complexity\<close>, and reading that throws when the result is null.
\<close>

definition createInlineDecoration :: "range \<Rightarrow> json \<Rightarrow> thrown + decoration" where
  "createInlineDecoration functionRange r =
     (case property (Some r) (js ''complexity'') of
        Inl e \<Rightarrow> Inl e
      | Inr c \<Rightarrow>
          Inr \<lparr>anchor = \<lparr>rstart = rstart functionRange, rend = rstart functionRange\<rparr>,
               label = c,
               color = (if c = Some (JString (js ''simple'')) then js ''#22c55e''
                        else if c = Some (JString (js ''moderate'')) then js ''#f59e0b''
                        else js ''#ef4444'')\<rparr>)"

text \<open>
  The body of the loop for each match index, in order. \<open>clock k\<close> is \<open>Date.now()\<close> at
  the k-th match. What getFunctionAtPosition or createInlineDecoration throws leaves the
  function before setDecorations is reached.
\<close>

fun collectDecorations ::
  "cache \<Rightarrow> (nat \<Rightarrow> int) \<Rightarrow> document \<Rightarrow> nat \<Rightarrow> nat list \<Rightarrow> thrown + decoration list" where
  "collectDecorations m clock d k [] = Inr []"
| "collectDecorations m clock d k (i # rest) =
     (case getFunctionAtPosition d (positionAt d i) of
        Inl e \<Rightarrow> Inl (LineError e)
      | Inr None \<Rightarrow> collectDecorations m clock d (Suc k) rest
      | Inr (Some functionRange) \<Rightarrow>
          (case cacheLookup m (clock k) (getTextRange d functionRange) of
             None \<Rightarrow> collectDecorations m clock d (Suc k) rest
           | Some r \<Rightarrow>
               (case createInlineDecoration functionRange r of
                  Inl e \<Rightarrow> Inl e
                | Inr decoration \<Rightarrow>
                    (case collectDecorations m clock d (Suc k) rest of
                       Inl e \<Rightarrow> Inl e
                     | Inr ds \<Rightarrow> Inr (decoration # ds)))))"

definition updateInlineDecorations :: "(nat \<Rightarrow> int) \<Rightarrow> document \<Rightarrow> state \<Rightarrow> state" where
  "updateInlineDecorations clock d s =
     (if \<not> inlineEnabled s then s
      else case collectDecorations (complexityCache s) clock d 0
                  (matchIndices (length (getText d)) (None, getText d)) of
             Inl e \<Rightarrow> s
           | Inr ds \<Rightarrow> s\<lparr>decorations := ds\<rparr>)"

text \<open>
  For stating what a pass renders: the j-th match of the start pattern in the document
  locates the span \<open>fr\<close>, and at the time of that lookup the cache has the result r
  for the text of the span, not too old.
\<close>

definition cacheHit :: "cache \<Rightarrow> (nat \<Rightarrow> int) \<Rightarrow> document \<Rightarrow> nat \<Rightarrow> range \<Rightarrow> json \<Rightarrow> bool" where
  "cacheHit m clock d j fr r =
     (j < length (matchIndices (length (getText d)) (None, getText d))
      \<and> getFunctionAtPosition d
            (positionAt d (matchIndices (length (getText d)) (None, getText d) ! j))
          = Inr (Some fr)
      \<and> cacheLookup m (clock j) (getTextRange d fr) = Some r)"

section \<open>The change listener and its timers\<close>

text \<open>
  Lines 276-282. The world around the analyzer: the document of the active editor, the
  callbacks that setTimeout has pending (each with the time at which it is due, in the
  order in which they were set), and the passes of updateInlineDecorations that have
  run, each with its time and the document it read.
\<close>

record world =
  analyzer :: state
  activeDocument :: document
  timers :: "int list"
  passes :: "(int \<times> document) list"

text \<open>A change of the active editor's document at time t.\<close>

definition onDidChangeTextDocument :: "int \<Rightarrow> document \<Rightarrow> world \<Rightarrow> world" where
  "onDidChangeTextDocument t d w =
     (let w1 = w\<lparr>activeDocument := d\<rparr>
      in if inlineEnabled (analyzer w1) then w1\<lparr>timers := timers w1 @ [t + 500]\<rparr> else w1)"

text \<open>A callback that comes due: \<open>() => this.updateInlineDecorations(editor)\<close>.\<close>

definition fireTimer :: "world \<Rightarrow> int \<Rightarrow> world" where
  "fireTimer w due =
     (if inlineEnabled (analyzer w)
      then w\<lparr>analyzer := updateInlineDecorations (\<lambda>k. due) (activeDocument w) (analyzer w),
              passes := passes w @ [(due, activeDocument w)]\<rparr>
      else w)"

text \<open>Time passes until t: the callbacks due by then run, in order.\<close>

definition advance :: "int \<Rightarrow> world \<Rightarrow> world" where
  "advance t w =
     foldl fireTimer (w\<lparr>timers := dropWhile (\<lambda>due. due \<le> t) (timers w)\<rparr>)
       (takeWhile (\<lambda>due. due \<le> t) (timers w))"

text \<open>A sequence of changes, each with its time, and then the callbacks still pending.\<close>

fun run :: "(int \<times> document) list \<Rightarrow> world \<Rightarrow> world" where
  "run [] w = foldl fireTimer (w\<lparr>timers := []\<rparr>) (timers w)"
| "run ((t, d) # evs) w = run evs (onDidChangeTextDocument t d (advance t w))"

section \<open>Manual analysis: analyzeSelection\<close>

record editor =
  document :: document
  selection :: range

text \<open>
  Line 89: \<open>result.suggestions && Object.values(result.suggestions).length > 0\<close>. A
  non-empty object, array or string has values; nothing else has.
\<close>

definition hasValues :: "json option \<Rightarrow> bool" where
  "hasValues v =
     (case v of
        Some (JObject fs) \<Rightarrow> fs \<noteq> []
      | Some (JArray xs) \<Rightarrow> xs \<noteq> []
      | Some (JString x) \<Rightarrow> x \<noteq> []
      | _ \<Rightarrow> False)"

text \<open>
  Lines 82-102. The function reads \<open>result.complexity\<close>, \<open>result.metrics.loc\<close> and
  calls \<open>toUpperCase\<close> before it shows anything; the message is written as the result
  it formats.
\<close>

definition showAnalysisResult :: "json \<Rightarrow> state \<Rightarrow> thrown + state" where
  "showAnalysisResult r s =
     (case property (Some r) (js ''complexity'') of
        Inl e \<Rightarrow> Inl e
      | Inr c \<Rightarrow>
          (case property (Some r) (js ''metrics'') of
             Inl e \<Rightarrow> Inl e
           | Inr m \<Rightarrow>
               (case property m (js ''loc'') of
                  Inl e \<Rightarrow> Inl e
                | Inr l \<Rightarrow>
                    (case callToUpperCase c of
                       Inl e \<Rightarrow> Inl e
                     | Inr u \<Rightarrow>
                         (case property (Some r) (js ''suggestions'') of
                            Inl e \<Rightarrow> Inl e
                          | Inr sg \<Rightarrow>
                              Inr (s\<lparr>notifications := notifications s @
                                     [ShowInformation (AnalysisResultText r)
                                        ((if hasValues sg then [js ''View Suggestions''] else [])
                                         @ [js ''Dismiss''])]\<rparr>))))))"

text \<open>Line 61: \<open>editor.document.getText(selection.isEmpty ? undefined : selection)\<close>.\<close>

definition selectedText :: "editor \<Rightarrow> jsstring" where
  "selectedText ed =
     (if rstart (selection ed) = rend (selection ed) then getText (document ed)
      else getTextRange (document ed) (selection ed))"

text \<open>
  Lines 53-80. The promise of withProgress is not awaited, so neither a rejection of
  analyzeCode nor what showAnalysisResult throws reaches the catch block of line 77.
\<close>

definition analyzeSelection ::
  "(jsstring \<Rightarrow> json axios_outcome) \<Rightarrow> editor option \<Rightarrow> state \<Rightarrow> state" where
  "analyzeSelection post activeTextEditor s =
     (case activeTextEditor of
        None \<Rightarrow> s\<lparr>notifications := notifications s @ [ShowError (js ''No active editor found'')]\<rparr>
      | Some ed \<Rightarrow>
          (let c = selectedText ed
           in if trim c = []
              then s\<lparr>notifications := notifications s @ [ShowError (js ''No code selected'')]\<rparr>
              else (let s0 = s\<lparr>notifications :=
                                  notifications s @ [ShowProgress (js ''Analyzing code complexity...'')]\<rparr>
                    in case analyzeCode post c s0 of
                         (Inr r, s1) \<Rightarrow>
                           (case showAnalysisResult r s1 of Inl e \<Rightarrow> s1 | Inr s2 \<Rightarrow> s2)
                       | (Inl err, s1) \<Rightarrow> s1)))"

section \<open>Example inputs\<close>

definition exampleDocument :: document where
  "exampleDocument =
     \<lparr>lines = [js ''function f() {'', js ''  return 1;'', js ''}''], eol = LF\<rparr>"

definition unterminatedDocument :: document where
  "unterminatedDocument =
     \<lparr>lines = [js ''function f() {'', js ''  return 1;''], eol = LF\<rparr>"

definition nestedDocument :: document where
  "nestedDocument =
     \<lparr>lines = [js ''function outer() {'', js ''  function inner() {'', js ''    return 1;'',
               js ''  }''],
      eol = LF\<rparr>"

definition blankDocument :: document where
  "blankDocument = \<lparr>lines = [js ''  '', []], eol = LF\<rparr>"

definition exampleVerdict :: json where
  "exampleVerdict =
     JObject
       [(js ''complexity'', JString (js ''complex'')),
        (js ''confidence'', JNumber (9 / 10)),
        (js ''metrics'',
           JObject [(js ''loc'', JNumber 3), (js ''cyclomatic'', JNumber 1),
                    (js ''nesting'', JNumber 1), (js ''loops'', JNumber 0),
                    (js ''conditionals'', JNumber 0)]),
        (js ''processing_time_ms'', JNumber 12)]"

definition initialState :: state where
  "initialState =
     \<lparr>inlineEnabled = True, complexityCache = Map.empty, decorations = [],
      notifications = [], console = [], requests = []\<rparr>"

definition networkError :: axios_error where
  "networkError = \<lparr>message = js ''Network Error'', detail = None\<rparr>"

text \<open>Two texts that differ only in the white space between two statements.\<close>

definition spaced1 :: jsstring where
  "spaced1 = js ''x=1;'' @ [32, 10, 10, 9, 32, 10, 10, 9, 32, 9, 10, 32, 10] @ js ''y=2;''"

definition spaced2 :: jsstring where
  "spaced2 = js ''x=1;'' @ [9, 32, 9, 32, 9, 32, 9, 10, 10, 10, 9, 10, 32] @ js ''y=2;''"

definition exampleSpan :: range where
  "exampleSpan = \<lparr>rstart = \<lparr>line = 0, character = 0\<rparr>, rend = \<lparr>line = 2, character = 1\<rparr>\<rparr>"

definition cachedState :: state where
  "cachedState =
     initialState\<lparr>complexityCache :=
       cacheStore Map.empty (getTextRange exampleDocument exampleSpan) exampleVerdict 0\<rparr>"

definition failingPost :: "jsstring \<Rightarrow> json axios_outcome" where
  "failingPost c = Rejected networkError"

definition malformedResponse :: json where
  "malformedResponse = JObject [(js ''complexity'', JString (js ''banana''))]"

definition malformedPost :: "jsstring \<Rightarrow> json axios_outcome" where
  "malformedPost c = Resolved malformedResponse"

definition nullPost :: "jsstring \<Rightarrow> json axios_outcome" where
  "nullPost c = Resolved JNull"

definition exampleDecoration :: decoration where
  "exampleDecoration =
     \<lparr>anchor = \<lparr>rstart = \<lparr>line = 0, character = 0\<rparr>, rend = \<lparr>line = 0, character = 0\<rparr>\<rparr>,
      label = Some (JString (js ''complex'')), color = js ''#ef4444''\<rparr>"

text \<open>A marker left from an earlier pass, on a line the example document no longer has.\<close>

definition staleDecoration :: decoration where
  "staleDecoration =
     \<lparr>anchor = \<lparr>rstart = \<lparr>line = 7, character = 0\<rparr>, rend = \<lparr>line = 7, character = 0\<rparr>\<rparr>,
      label = Some (JString (js ''simple'')), color = js ''#22c55e''\<rparr>"

definition staleState :: state where
  "staleState = initialState\<lparr>decorations := [staleDecoration]\<rparr>"

text \<open>The state after a hover over the example function that the service answered with null.\<close>

definition nullState :: state where
  "nullState =
     staleState
       \<lparr>complexityCache := cacheStore Map.empty (getTextRange exampleDocument exampleSpan) JNull 0,
        console := [HoverFailedLog TypeError],
        requests := [getTextRange exampleDocument exampleSpan]\<rparr>"

definition exampleEditor :: editor where
  "exampleEditor =
     \<lparr>document = exampleDocument,
      selection = \<lparr>rstart = \<lparr>line = 1, character = 2\<rparr>, rend = \<lparr>line = 1, character = 2\<rparr>\<rparr>\<rparr>"

definition blankEditor :: editor where
  "blankEditor =
     \<lparr>document = blankDocument,
      selection = \<lparr>rstart = \<lparr>line = 0, character = 0\<rparr>, rend = \<lparr>line = 0, character = 2\<rparr>\<rparr>\<rparr>"

definition exampleWorld :: world where
  "exampleWorld =
     \<lparr>analyzer = initialState, activeDocument = exampleDocument, timers = [], passes = []\<rparr>"

section \<open>Facts about the cache key\<close>

lemma hashLoop_Cons: "hashLoop h (c # cs) = hashLoop (31 * h + ucast c) cs"
proof -
  have "push_bit 5 h - h = 31 * h"
    by (simp add: push_bit_eq_mult)
  then show ?thesis by (simp add: Let_def)
qed

lemma hashLoop_append: "hashLoop h (p @ q) = hashLoop (hashLoop h p) q"
  by (induction p arbitrary: h) (simp_all add: hashLoop_Cons del: hashLoop.simps(2))

lemma mult31_inj:
  fixes a b :: "32 word"
  assumes "31 * a = 31 * b"
  shows "a = b"
proof -
  have inv: "(3186588639 :: 32 word) * 31 = 1" by simp
  from assms have "3186588639 * (31 * a) = 3186588639 * (31 * b)" by simp
  then have "(3186588639 * 31) * a = (3186588639 * 31) * b" by (simp only: mult.assoc)
  then show "a = b" by (simp only: inv mult_1)
qed

lemma ucast_inj:
  fixes c d :: code_unit
  assumes "(ucast c :: 32 word) = ucast d"
  shows "c = d"
proof (rule bit_word_eqI)
  fix n assume n: "n < LENGTH(16)"
  from assms have "bit (ucast c :: 32 word) n = bit (ucast d :: 32 word) n" by simp
  with n show "bit c n = bit d n" by (simp add: bit_ucast_iff)
qed

lemma hashLoop_inj: "hashLoop h1 q = hashLoop h2 q \<Longrightarrow> h1 = h2"
proof (induction q arbitrary: h1 h2)
  case Nil
  then show ?case by simp
next
  case (Cons c q)
  from Cons.prems have "hashLoop (31 * h1 + ucast c) q = hashLoop (31 * h2 + ucast c) q"
    by (simp only: hashLoop_Cons)
  then have "31 * h1 + ucast c = 31 * h2 + (ucast c :: 32 word)" by (rule Cons.IH)
  then have "31 * h1 = 31 * h2" by simp
  then show ?case by (rule mult31_inj)
qed


lemma unat_digit:
  assumes "k < 10"
  shows "unat (of_nat (48 + k) :: code_unit) = 48 + k"
proof -
  have "unat (of_nat (48 + k) :: code_unit) = (48 + k) mod 2 ^ LENGTH(16)"
    by (rule unat_of_nat)
  with assms show ?thesis by simp
qed

lemma foldl_digits: "foldl (\<lambda>a c. 10 * a + (unat c - 48)) 0 (digits n) = n"
proof (induction n rule: digits.induct)
  case (1 n)
  show ?case
  proof (cases "n < 10")
    case True
    with unat_digit [of n] show ?thesis
      by (simp add: digits.simps [of n])
  next
    case False
    with 1 unat_digit [of "n mod 10"] show ?thesis
      by (simp add: digits.simps [of n])
  qed
qed

lemma digits_inj: "digits m = digits n \<Longrightarrow> m = n"
  by (metis foldl_digits)

lemma digit_not_minus:
  assumes "k < 10"
  shows "(of_nat (48 + k) :: code_unit) \<noteq> 45"
proof
  assume "(of_nat (48 + k) :: code_unit) = 45"
  then have "unat (of_nat (48 + k) :: code_unit) = unat (45 :: code_unit)"
    by (rule arg_cong)
  then have "48 + k = unat (45 :: code_unit)"
    by (simp only: unat_digit [OF assms])
  then show False by simp
qed

lemma digits_hd: "\<exists>c cs. digits n = c # cs \<and> c \<noteq> 45"
proof (induction n rule: digits.induct)
  case (1 n)
  show ?case
  proof (cases "n < 10")
    case True
    with digit_not_minus [of n] show ?thesis by (simp add: digits.simps [of n])
  next
    case False
    with 1 show ?thesis by (auto simp: digits.simps [of n])
  qed
qed

lemma toString_inj: "toString i = toString j \<Longrightarrow> i = j"
proof -
  assume eq: "toString i = toString j"
  obtain c cs where i: "digits (nat i) = c # cs" "c \<noteq> 45" using digits_hd by blast
  obtain c' cs' where j: "digits (nat j) = c' # cs'" "c' \<noteq> 45" using digits_hd by blast
  show "i = j"
  proof (cases "i < 0")
    case True
    show ?thesis
    proof (cases "j < 0")
      case True
      with \<open>i < 0\<close> eq have "digits (nat (- i)) = digits (nat (- j))" by (simp add: toString_def)
      then have "nat (- i) = nat (- j)" by (rule digits_inj)
      with True \<open>i < 0\<close> show ?thesis by simp
    next
      case False
      with True eq j show ?thesis by (simp add: toString_def)
    qed
  next
    case False
    show ?thesis
    proof (cases "j < 0")
      case True
      with False eq i show ?thesis by (simp add: toString_def)
    next
      case jf: False
      with False eq have "digits (nat i) = digits (nat j)" by (simp add: toString_def)
      then have "nat i = nat j" by (rule digits_inj)
      with False jf show ?thesis by simp
    qed
  qed
qed

lemma getCacheKey_eq_iff: "getCacheKey a = getCacheKey b \<longleftrightarrow> hashLoop 0 a = hashLoop 0 b"
proof
  assume "getCacheKey a = getCacheKey b"
  then have "sint (hashLoop 0 a) = sint (hashLoop 0 b)"
    unfolding getCacheKey_def by (rule toString_inj)
  then show "hashLoop 0 a = hashLoop 0 b" by (rule signed_word_eqI)
qed (simp add: getCacheKey_def)

section \<open>Facts about the brace scan\<close>

lemma braceDelta_Nil: "braceDelta [] = 0"
  by (simp add: braceDelta_def)

lemma braceDelta_Cons:
  "braceDelta (c # cs) = (if c = 123 then 1 else if c = 125 then - 1 else 0) + braceDelta cs"
  by (simp add: braceDelta_def)

lemma braceDelta_append: "braceDelta (a @ b) = braceDelta a + braceDelta b"
  by (induction a) (simp_all add: braceDelta_Nil braceDelta_Cons)

lemma scanLine_step:
  "scanLine b later (c # cs) =
     (if b + braceDelta [c] = 0 \<and> later then (True, 0)
      else scanLine (b + braceDelta [c]) later cs)"
  by (simp add: braceDelta_Cons braceDelta_Nil Let_def)

lemma scanLine_False:
  "scanLine b later l = (False, b') \<Longrightarrow> b' = b + braceDelta l"
proof (induction l arbitrary: b)
  case Nil
  then show ?case by (simp add: braceDelta_Nil)
next
  case (Cons c cs)
  from Cons.prems have "scanLine (b + braceDelta [c]) later cs = (False, b')"
    by (simp only: scanLine_step split: if_splits) simp
  then have "b' = b + braceDelta [c] + braceDelta cs" by (rule Cons.IH)
  then show ?case using braceDelta_append [of "[c]" cs] by simp
qed

lemma scanLine_True: "scanLine b later l = (True, b') \<Longrightarrow> later"
proof (induction l arbitrary: b)
  case Nil
  then show ?case by simp
next
  case (Cons c cs)
  show ?case
  proof (cases "b + braceDelta [c] = 0 \<and> later")
    case True
    then show ?thesis by simp
  next
    case False
    with Cons.prems have "scanLine (b + braceDelta [c]) later cs = (True, b')"
      by (simp only: scanLine_step if_False)
    then show ?thesis by (rule Cons.IH)
  qed
qed

lemma scanLine_found:
  "later \<Longrightarrow> 0 < k \<Longrightarrow> k \<le> length l \<Longrightarrow> b + braceDelta (take k l) = 0
     \<Longrightarrow> fst (scanLine b later l)"
proof (induction l arbitrary: b k)
  case Nil
  then show ?case by simp
next
  case (Cons c cs)
  show ?case
  proof (cases "b + braceDelta [c] = 0")
    case True
    with Cons.prems(1) show ?thesis by (simp only: scanLine_step) simp
  next
    case False
    from Cons.prems(2) obtain k' where k: "k = Suc k'" by (cases k) auto
    have split: "braceDelta (take k (c # cs)) = braceDelta [c] + braceDelta (take k' cs)"
      using braceDelta_append [of "[c]" "take k' cs"] k by simp
    with Cons.prems(4) have z: "b + braceDelta [c] + braceDelta (take k' cs) = 0" by simp
    have "k' \<noteq> 0"
    proof
      assume "k' = 0"
      with z have "b + braceDelta [c] = 0" by (simp add: braceDelta_Nil)
      with False show False by simp
    qed
    then have "0 < k'" by simp
    moreover from Cons.prems(3) k have "k' \<le> length cs" by simp
    ultimately have "fst (scanLine (b + braceDelta [c]) later cs)"
      using Cons.IH [OF Cons.prems(1) _ _ z] by blast
    with False show ?thesis by (simp only: scanLine_step) simp
  qed
qed

lemma scanLine_not_found:
  assumes "later \<longrightarrow> (\<forall>k. 0 < k \<and> k \<le> length l \<longrightarrow> b + braceDelta (take k l) \<noteq> 0)"
  shows "scanLine b later l = (False, b + braceDelta l)"
proof (cases "scanLine b later l")
  case (Pair found b')
  show ?thesis
  proof (cases found)
    case False
    with Pair scanLine_False [of b later l b'] show ?thesis by simp
  next
    case True
    with Pair have "scanLine b later l = (True, b')" by simp
    then have "later" by (rule scanLine_True)
    have "\<exists>k. 0 < k \<and> k \<le> length l \<and> b + braceDelta (take k l) = 0"
      using Pair True
    proof (induction l arbitrary: b)
      case Nil
      then show ?case by simp
    next
      case (Cons c cs)
      show ?case
      proof (cases "b + braceDelta [c] = 0")
        case True
        then have "0 < Suc 0 \<and> Suc 0 \<le> length (c # cs) \<and> b + braceDelta (take (Suc 0) (c # cs)) = 0"
          by simp
        then show ?thesis by blast
      next
        case False
        with Cons.prems have "scanLine (b + braceDelta [c]) later cs = (found, b')"
          by (simp only: scanLine_step) simp
        from Cons.IH [OF this Cons.prems(2)] obtain k where
          k: "0 < k" "k \<le> length cs" "b + braceDelta [c] + braceDelta (take k cs) = 0" by blast
        have "braceDelta (take (Suc k) (c # cs)) = braceDelta [c] + braceDelta (take k cs)"
          using braceDelta_append [of "[c]" "take k cs"] by simp
        with k have "0 < Suc k \<and> Suc k \<le> length (c # cs) \<and> b + braceDelta (take (Suc k) (c # cs)) = 0"
          by simp
        then show ?thesis by blast
      qed
    qed
    with assms \<open>later\<close> show ?thesis by blast
  qed
qed


lemma scanLines_None_iff:
  "scanLines startLine i b ls = None \<longleftrightarrow>
     (\<forall>j < length ls. startLine < i + j \<longrightarrow>
        \<not> zeroAfter (b + braceDelta (concat (take j ls))) (ls ! j))"
proof (induction ls arbitrary: i b)
  case Nil
  then show ?case by simp
next
  case (Cons l ls)
  show ?case
  proof (cases "startLine < i \<and> zeroAfter b l")
    case True
    then obtain k where "0 < k" "k \<le> length l" "b + braceDelta (take k l) = 0"
      by (auto simp: zeroAfter_def)
    with True have "fst (scanLine b (startLine < i) l)"
      using scanLine_found [of "startLine < i" k l b] by simp
    then have "scanLines startLine i b (l # ls) \<noteq> None"
      by (cases "scanLine b (startLine < i) l") auto
    moreover from True have "\<not> (\<forall>j < length (l # ls). startLine < i + j \<longrightarrow>
        \<not> zeroAfter (b + braceDelta (concat (take j (l # ls)))) ((l # ls) ! j))"
      by (auto simp: braceDelta_Nil intro: exI [of _ 0])
    ultimately show ?thesis by blast
  next
    case False
    then have "startLine < i \<longrightarrow> (\<forall>k. 0 < k \<and> k \<le> length l \<longrightarrow> b + braceDelta (take k l) \<noteq> 0)"
      by (auto simp: zeroAfter_def)
    then have sl: "scanLine b (startLine < i) l = (False, b + braceDelta l)"
      by (rule scanLine_not_found)
    then have "scanLines startLine i b (l # ls) = scanLines startLine (Suc i) (b + braceDelta l) ls"
      by simp
    also have "\<dots> = None \<longleftrightarrow> (\<forall>j < length ls. startLine < Suc i + j \<longrightarrow>
        \<not> zeroAfter (b + braceDelta l + braceDelta (concat (take j ls))) (ls ! j))"
      by (rule Cons.IH)
    also have "\<dots> \<longleftrightarrow> (\<forall>j < length (l # ls). startLine < i + j \<longrightarrow>
        \<not> zeroAfter (b + braceDelta (concat (take j (l # ls)))) ((l # ls) ! j))"
    proof
      assume h: "\<forall>j < length ls. startLine < Suc i + j \<longrightarrow>
        \<not> zeroAfter (b + braceDelta l + braceDelta (concat (take j ls))) (ls ! j)"
      show "\<forall>j < length (l # ls). startLine < i + j \<longrightarrow>
        \<not> zeroAfter (b + braceDelta (concat (take j (l # ls)))) ((l # ls) ! j)"
      proof (intro allI impI)
        fix j assume j: "j < length (l # ls)" "startLine < i + j"
        show "\<not> zeroAfter (b + braceDelta (concat (take j (l # ls)))) ((l # ls) ! j)"
        proof (cases j)
          case 0
          with j False show ?thesis by (simp add: braceDelta_Nil)
        next
          case (Suc j')
          with j h have "\<not> zeroAfter (b + braceDelta l + braceDelta (concat (take j' ls))) (ls ! j')"
            by simp
          with Suc show ?thesis by (simp add: braceDelta_append add.assoc)
        qed
      qed
    next
      assume h: "\<forall>j < length (l # ls). startLine < i + j \<longrightarrow>
        \<not> zeroAfter (b + braceDelta (concat (take j (l # ls)))) ((l # ls) ! j)"
      show "\<forall>j < length ls. startLine < Suc i + j \<longrightarrow>
        \<not> zeroAfter (b + braceDelta l + braceDelta (concat (take j ls))) (ls ! j)"
      proof (intro allI impI)
        fix j assume j: "j < length ls" "startLine < Suc i + j"
        with h [rule_format, of "Suc j"] show
          "\<not> zeroAfter (b + braceDelta l + braceDelta (concat (take j ls))) (ls ! j)"
          by (simp add: braceDelta_append add.assoc)
      qed
    qed
    finally show ?thesis .
  qed
qed

lemma scanLines_Some:
  "scanLines startLine i b ls = Some r \<Longrightarrow>
     rstart r = \<lparr>line = startLine, character = 0\<rparr>
     \<and> (\<exists>j < length ls. line (rend r) = i + j \<and> startLine < i + j
           \<and> character (rend r) = length (ls ! j))"
proof (induction ls arbitrary: i b)
  case Nil
  then show ?case by simp
next
  case (Cons l ls)
  obtain found b' where sl: "scanLine b (startLine < i) l = (found, b')"
    by (cases "scanLine b (startLine < i) l")
  show ?case
  proof (cases found)
    case True
    with sl have "scanLine b (startLine < i) l = (True, b')" by simp
    then have "startLine < i" by (rule scanLine_True)
    moreover from True sl Cons.prems
    have "r = \<lparr>rstart = \<lparr>line = startLine, character = 0\<rparr>, rend = \<lparr>line = i, character = length l\<rparr>\<rparr>"
      by simp
    ultimately have "rstart r = \<lparr>line = startLine, character = 0\<rparr>
       \<and> 0 < length (l # ls) \<and> line (rend r) = i + 0 \<and> startLine < i + 0
       \<and> character (rend r) = length ((l # ls) ! 0)"
      by simp
    then show ?thesis by blast
  next
    case False
    with sl Cons.prems have "scanLines startLine (Suc i) b' ls = Some r" by simp
    from Cons.IH [OF this] obtain j where
      "rstart r = \<lparr>line = startLine, character = 0\<rparr>" "j < length ls"
      "line (rend r) = Suc i + j" "startLine < Suc i + j" "character (rend r) = length (ls ! j)"
      by blast
    then have "rstart r = \<lparr>line = startLine, character = 0\<rparr>
       \<and> Suc j < length (l # ls) \<and> line (rend r) = i + Suc j \<and> startLine < i + Suc j
       \<and> character (rend r) = length ((l # ls) ! Suc j)"
      by simp
    then show ?thesis by blast
  qed
qed

lemma findStart_self:
  "regexTest functionRegex (lineText d i) \<Longrightarrow> findStart d pl i = Some i"
  by (cases i) simp_all

lemma locate_on_start:
  assumes "line p < lineCount d" and "regexTest functionRegex (lineText d (line p))"
  shows "getFunctionAtPosition d p = Inr (scanLines (line p) (line p) 0 (drop (line p) (lines d)))"
  using assms by (simp add: getFunctionAtPosition_def findStart_self)

lemma locate_off_start:
  assumes "line p < lineCount d" and "\<not> regexTest functionRegex (lineText d (line p))"
  shows "getFunctionAtPosition d p = Inr None"
  using assms by (simp add: getFunctionAtPosition_def)

lemma neverReturnsToZero_iff:
  "neverReturnsToZero d s \<longleftrightarrow>
     (\<forall>j < length (drop s (lines d)). s < s + j \<longrightarrow>
        \<not> zeroAfter (0 + braceDelta (concat (take j (drop s (lines d))))) (drop s (lines d) ! j))"
proof
  assume n: "neverReturnsToZero d s"
  show "\<forall>j < length (drop s (lines d)). s < s + j \<longrightarrow>
        \<not> zeroAfter (0 + braceDelta (concat (take j (drop s (lines d))))) (drop s (lines d) ! j)"
  proof (intro allI impI)
    fix j assume j: "j < length (drop s (lines d))" "s < s + j"
    then have i: "Suc s \<le> s + j" "s + j < lineCount d" by (auto simp: lineCount_def)
    have l: "drop s (lines d) ! j = lineText d (s + j)"
      using j by (simp add: lineText_def)
    from n have "\<forall>i \<in> set [Suc s ..< lineCount d].
        \<forall>k \<in> set [1 ..< Suc (length (lineText d i))]. runningCount d s i k \<noteq> 0"
      unfolding neverReturnsToZero_def list_all_iff .
    moreover from i have "s + j \<in> set [Suc s ..< lineCount d]" by simp
    ultimately have "\<forall>k \<in> set [1 ..< Suc (length (lineText d (s + j)))]. runningCount d s (s + j) k \<noteq> 0"
      by blast
    then have nz: "\<forall>k. 1 \<le> k \<and> k < Suc (length (lineText d (s + j))) \<longrightarrow> runningCount d s (s + j) k \<noteq> 0"
      by (simp del: upt_Suc)
    show "\<not> zeroAfter (0 + braceDelta (concat (take j (drop s (lines d))))) (drop s (lines d) ! j)"
    proof
      assume "zeroAfter (0 + braceDelta (concat (take j (drop s (lines d))))) (drop s (lines d) ! j)"
      then obtain k where k: "0 < k" "k \<le> length (lineText d (s + j))"
        "braceDelta (concat (take j (drop s (lines d)))) + braceDelta (take k (lineText d (s + j))) = 0"
        unfolding zeroAfter_def l by auto
      then have "runningCount d s (s + j) k = 0" by (simp add: runningCount_def)
      moreover from k nz have "runningCount d s (s + j) k \<noteq> 0" by simp
      ultimately show False by simp
    qed
  qed
next
  assume h: "\<forall>j < length (drop s (lines d)). s < s + j \<longrightarrow>
        \<not> zeroAfter (0 + braceDelta (concat (take j (drop s (lines d))))) (drop s (lines d) ! j)"
  show "neverReturnsToZero d s"
    unfolding neverReturnsToZero_def list_all_iff
  proof (intro ballI)
    fix i k assume i: "i \<in> set [Suc s ..< lineCount d]"
      and k: "k \<in> set [1 ..< Suc (length (lineText d i))]"
    define j where "j = i - s"
    from i have j: "j < length (drop s (lines d))" "s < s + j" "i = s + j"
      by (auto simp: j_def lineCount_def)
    have l: "drop s (lines d) ! j = lineText d i"
      using j by (simp add: lineText_def)
    from h j have "\<not> zeroAfter (0 + braceDelta (concat (take j (drop s (lines d))))) (drop s (lines d) ! j)"
      by blast
    then have "\<forall>k. 0 < k \<and> k \<le> length (lineText d i) \<longrightarrow>
        braceDelta (concat (take j (drop s (lines d)))) + braceDelta (take k (lineText d i)) \<noteq> 0"
      unfolding zeroAfter_def l by auto
    moreover from k have "0 < k \<and> k \<le> length (lineText d i)" by (simp del: upt_Suc)
    moreover have "i - s = j" by (simp add: j_def)
    ultimately show "runningCount d s i k \<noteq> 0"
      by (simp add: runningCount_def)
  qed
qed

lemma locate_None_iff:
  assumes "line p < lineCount d"
  shows "getFunctionAtPosition d p = Inr None \<longleftrightarrow>
           \<not> regexTest functionRegex (lineText d (line p)) \<or> neverReturnsToZero d (line p)"
proof (cases "regexTest functionRegex (lineText d (line p))")
  case True
  with assms have "getFunctionAtPosition d p = Inr (scanLines (line p) (line p) 0 (drop (line p) (lines d)))"
    by (rule locate_on_start)
  then have "getFunctionAtPosition d p = Inr None
      \<longleftrightarrow> scanLines (line p) (line p) 0 (drop (line p) (lines d)) = None"
    by simp
  also have "\<dots> \<longleftrightarrow> neverReturnsToZero d (line p)"
    unfolding neverReturnsToZero_iff by (rule scanLines_None_iff)
  finally show ?thesis using True by simp
next
  case False
  with assms show ?thesis by (simp add: locate_off_start)
qed


section \<open>Evaluating the examples\<close>

lemmas regex_eval =
  regexTest_def functionRegex_def functionRegexGM_def functionGroup_def parenList_def js_def
  isWordAt_def nextUnit_def isWordChar_def isWhiteSpace_def isLineTerminator_def

lemmas document_eval =
  lineCount_def lineText_def getText_def getTextRange_def positionAt_def

lemma hashLoop_spaced: "hashLoop 0 spaced1 = hashLoop 0 spaced2"
  by (simp add: spaced1_def spaced2_def js_def hashLoop_Cons del: hashLoop.simps(2))

lemma exampleDocument_start:
  "getFunctionAtPosition exampleDocument \<lparr>line = 0, character = 0\<rparr> =
     Inr (Some \<lparr>rstart = \<lparr>line = 0, character = 0\<rparr>, rend = \<lparr>line = 2, character = 1\<rparr>\<rparr>)"
  by (simp add: getFunctionAtPosition_def exampleDocument_def document_eval regex_eval)

lemma unterminatedDocument_start: "regexTest functionRegex (lineText unterminatedDocument 0)"
  by (simp add: unterminatedDocument_def document_eval regex_eval)

lemma unterminatedDocument_body: "\<not> regexTest functionRegex (lineText unterminatedDocument 1)"
  by (simp add: unterminatedDocument_def document_eval regex_eval)

lemma unterminatedDocument_count: "neverReturnsToZero unterminatedDocument 0"
  by (simp add: neverReturnsToZero_def runningCount_def unterminatedDocument_def document_eval
      js_def braceDelta_Cons braceDelta_Nil braceDelta_append)

section \<open>The boundary locator\<close>

text \<open>
  C1, as the code has it. The claim promises a span for every position inside a
  well-nested function. getFunctionAtPosition first tests the position's own line
  against the start pattern and returns none when it does not match, so the scan
  upwards never leaves that line: a span is returned exactly when the position's line
  matches the start pattern and the running brace count is zero after some character
  of a later line. The span then starts at column 0 of the position's own line, which
  is the nearest start line at or above the position, and ends at the end of a later
  line of the document.
\<close>

theorem locate_only_on_start_line:
  assumes "line p < lineCount d"
  shows "((\<exists>r. getFunctionAtPosition d p = Inr (Some r)) \<longleftrightarrow>
            regexTest functionRegex (lineText d (line p)) \<and> \<not> neverReturnsToZero d (line p))
     \<and> (\<forall>r. getFunctionAtPosition d p = Inr (Some r) \<longrightarrow>
            rstart r = \<lparr>line = line p, character = 0\<rparr>
            \<and> line p < line (rend r) \<and> line (rend r) < lineCount d
            \<and> character (rend r) = length (lineText d (line (rend r))))"
proof -
  have total: "\<exists>x. getFunctionAtPosition d p = Inr x"
    using assms by (cases "regexTest functionRegex (lineText d (line p))")
      (simp_all add: locate_on_start locate_off_start)
  then obtain x where x: "getFunctionAtPosition d p = Inr x" by blast
  have "(\<exists>r. getFunctionAtPosition d p = Inr (Some r)) \<longleftrightarrow> getFunctionAtPosition d p \<noteq> Inr None"
    using x by (cases x) simp_all
  with locate_None_iff [OF assms]
  have exact: "(\<exists>r. getFunctionAtPosition d p = Inr (Some r)) \<longleftrightarrow>
          regexTest functionRegex (lineText d (line p)) \<and> \<not> neverReturnsToZero d (line p)"
    by simp
  have span: "rstart r = \<lparr>line = line p, character = 0\<rparr>
       \<and> line p < line (rend r) \<and> line (rend r) < lineCount d
       \<and> character (rend r) = length (lineText d (line (rend r)))"
    if r: "getFunctionAtPosition d p = Inr (Some r)" for r
  proof -
  have m: "regexTest functionRegex (lineText d (line p))"
  proof (rule ccontr)
    assume "\<not> regexTest functionRegex (lineText d (line p))"
    with assms have "getFunctionAtPosition d p = Inr None" by (rule locate_off_start)
    with r show False by simp
  qed
  from locate_on_start [OF assms m] r
  have "scanLines (line p) (line p) 0 (drop (line p) (lines d)) = Some r" by simp
  from scanLines_Some [OF this] obtain j where j:
    "rstart r = \<lparr>line = line p, character = 0\<rparr>" "j < length (drop (line p) (lines d))"
    "line (rend r) = line p + j" "line p < line p + j"
    "character (rend r) = length (drop (line p) (lines d) ! j)"
    by blast
  from j show ?thesis
    by (auto simp: lineCount_def lineText_def)
  qed
  from exact span show ?thesis by blast
qed

theorem locate_only_on_start_line_witness:
  "line \<lparr>line = 0, character = 0\<rparr> < lineCount exampleDocument
   \<and> getFunctionAtPosition exampleDocument \<lparr>line = 0, character = 0\<rparr> =
       Inr (Some \<lparr>rstart = \<lparr>line = 0, character = 0\<rparr>, rend = \<lparr>line = 2, character = 1\<rparr>\<rparr>)
   \<and> regexTest functionRegex (lineText exampleDocument 0)
   \<and> \<not> neverReturnsToZero exampleDocument 0"
proof -
  have h: "line \<lparr>line = 0, character = 0\<rparr> < lineCount exampleDocument"
    by (simp add: exampleDocument_def lineCount_def)
  from locate_only_on_start_line [OF h] exampleDocument_start h show ?thesis
    by simp
qed

text \<open>
  The claim C1 as stated fails: the function of exampleDocument spans lines 0 to 2, and
  for a position on line 1, inside its body, no span is returned.
\<close>

theorem locate_inside_body_counterexample:
  "getFunctionAtPosition exampleDocument \<lparr>line = 0, character = 0\<rparr> =
     Inr (Some \<lparr>rstart = \<lparr>line = 0, character = 0\<rparr>, rend = \<lparr>line = 2, character = 1\<rparr>\<rparr>)
   \<and> getFunctionAtPosition exampleDocument \<lparr>line = 1, character = 2\<rparr> = Inr None"
  by (simp add: getFunctionAtPosition_def exampleDocument_def document_eval regex_eval)

text \<open>
  C8, as the code has it. A function starts at line startLine and its closing brace is
  missing: the running brace count, started at zero at startLine, is not zero after any
  character of any later line. Then getFunctionAtPosition returns none, and no
  exception, for every position of the document at or below startLine that is on
  startLine itself or on a line that does not match the start pattern. A position on a
  later line that matches the start pattern is located from that line on, whatever
  encloses it.
\<close>

theorem unterminated_function_none:
  assumes "regexTest functionRegex (lineText d startLine)"
    and "neverReturnsToZero d startLine"
    and "startLine \<le> line p" and "line p < lineCount d"
    and "line p = startLine \<or> \<not> regexTest functionRegex (lineText d (line p))"
  shows "getFunctionAtPosition d p = Inr None"
proof (cases "line p = startLine")
  case True
  with locate_None_iff [OF assms(4)] assms(2) show ?thesis by simp
next
  case False
  with assms(5) have "\<not> regexTest functionRegex (lineText d (line p))" by simp
  with assms(4) show ?thesis by (rule locate_off_start)
qed

theorem unterminated_function_none_witness:
  "regexTest functionRegex (lineText unterminatedDocument 0)
   \<and> neverReturnsToZero unterminatedDocument 0
   \<and> \<not> regexTest functionRegex (lineText unterminatedDocument 1)
   \<and> getFunctionAtPosition unterminatedDocument \<lparr>line = 0, character = 5\<rparr> = Inr None
   \<and> getFunctionAtPosition unterminatedDocument \<lparr>line = 1, character = 3\<rparr> = Inr None"
proof -
  have n: "lineCount unterminatedDocument = 2"
    by (simp add: unterminatedDocument_def lineCount_def)
  from unterminated_function_none [where d = unterminatedDocument and startLine = 0
      and p = "\<lparr>line = 0, character = 5\<rparr>",
      OF unterminatedDocument_start unterminatedDocument_count]
    unterminated_function_none [where d = unterminatedDocument and startLine = 0
      and p = "\<lparr>line = 1, character = 3\<rparr>",
      OF unterminatedDocument_start unterminatedDocument_count]
    n unterminatedDocument_start unterminatedDocument_body unterminatedDocument_count
  show ?thesis by simp
qed

text \<open>
  The claim C8 as stated fails: in nestedDocument the function that starts at line 0 has
  no closing brace, and for a position on line 1, inside it, a span is returned: that of
  the function nested there, which does close.
\<close>

theorem nested_span_counterexample:
  "regexTest functionRegex (lineText nestedDocument 0)
   \<and> neverReturnsToZero nestedDocument 0
   \<and> getFunctionAtPosition nestedDocument \<lparr>line = 1, character = 4\<rparr> =
       Inr (Some \<lparr>rstart = \<lparr>line = 1, character = 0\<rparr>, rend = \<lparr>line = 3, character = 3\<rparr>\<rparr>)"
proof -
  have a: "regexTest functionRegex (lineText nestedDocument 0)"
    by (simp add: nestedDocument_def document_eval regex_eval)
  have b: "neverReturnsToZero nestedDocument 0"
    by (simp add: neverReturnsToZero_def runningCount_def nestedDocument_def document_eval
        js_def braceDelta_Cons braceDelta_Nil braceDelta_append)
  have c: "getFunctionAtPosition nestedDocument \<lparr>line = 1, character = 4\<rparr> =
       Inr (Some \<lparr>rstart = \<lparr>line = 1, character = 0\<rparr>, rend = \<lparr>line = 3, character = 3\<rparr>\<rparr>)"
    by (simp add: getFunctionAtPosition_def nestedDocument_def document_eval regex_eval)
  from a b c show ?thesis by simp
qed

section \<open>The annotation cache\<close>

text \<open>
  C6. For equal code texts c1 and c2, a lookup of c1 within the time to live after a
  store of c2 with verdict v gives v, whatever the cache held before: the store
  replaces an earlier entry under the same key, so the latest store wins.
\<close>

theorem cache_roundtrip:
  assumes "c1 = c2" and "now - T < CACHE_DURATION"
  shows "cacheLookup (cacheStore m c2 v T) now c1 = Some v
     \<and> cacheLookup (cacheStore (cacheStore m c2 v0 T0) c2 v T) now c1 = Some v"
  using assms by (simp add: cacheLookup_def cacheStore_def)

theorem cache_roundtrip_witness:
  "js ''f(){}'' = js ''f(){}'' \<and> (299999 :: int) - 0 < CACHE_DURATION
   \<and> cacheLookup (cacheStore Map.empty (js ''f(){}'') exampleVerdict 0) 299999 (js ''f(){}'')
       = Some exampleVerdict"
proof -
  have h: "(299999 :: int) - 0 < CACHE_DURATION" by (simp add: CACHE_DURATION_def)
  from cache_roundtrip [of "js ''f(){}''" "js ''f(){}''" 299999 0 Map.empty exampleVerdict, OF refl h] h
  show ?thesis by simp
qed

text \<open>
  C7, as the code has it. The key is computed from every code unit of the text, white
  space included, and nothing is normalised. Two texts that differ in exactly one code
  unit (one white-space character replaced by another, say) always have different keys,
  and a store of one leaves every lookup of the other as it was. Texts that differ in
  more places can have the same key.
\<close>

theorem key_single_substitution:
  assumes "c \<noteq> c'"
  shows "getCacheKey (p @ c # q) \<noteq> getCacheKey (p @ c' # q)
     \<and> cacheLookup (cacheStore m (p @ c' # q) v T) now (p @ c # q) = cacheLookup m now (p @ c # q)"
proof -
  have ne: "getCacheKey (p @ c # q) \<noteq> getCacheKey (p @ c' # q)"
  proof
    assume "getCacheKey (p @ c # q) = getCacheKey (p @ c' # q)"
    then have "hashLoop 0 (p @ c # q) = hashLoop 0 (p @ c' # q)"
      by (simp only: getCacheKey_eq_iff)
    then have "hashLoop (31 * hashLoop 0 p + ucast c) q = hashLoop (31 * hashLoop 0 p + ucast c') q"
      by (simp only: hashLoop_append hashLoop_Cons)
    then have "31 * hashLoop 0 p + ucast c = 31 * hashLoop 0 p + (ucast c' :: 32 word)"
      by (rule hashLoop_inj)
    then have "(ucast c :: 32 word) = ucast c'" by simp
    then have "c = c'" by (rule ucast_inj)
    with assms show False by simp
  qed
  then show ?thesis by (simp add: cacheLookup_def cacheStore_def)
qed


theorem key_single_substitution_witness:
  "(32 :: code_unit) \<noteq> 9
   \<and> getCacheKey (js ''a'' @ 32 # js ''b'') \<noteq> getCacheKey (js ''a'' @ 9 # js ''b'')
   \<and> cacheLookup (cacheStore Map.empty (js ''a'' @ 9 # js ''b'') exampleVerdict 0) 0
        (js ''a'' @ 32 # js ''b'') = None"
proof -
  have h: "(32 :: code_unit) \<noteq> 9" by simp
  from key_single_substitution [OF h, of "js ''a''" "js ''b''" Map.empty exampleVerdict 0 0] h
  show ?thesis by (simp add: cacheLookup_def)
qed

text \<open>
  The claim C7 as stated fails: spaced1 and spaced2 are different texts, equal once
  their white space is removed, and they have the same key, so a lookup of one after a
  store of the other is a hit.
\<close>

theorem whitespace_collision_counterexample:
  "spaced1 \<noteq> spaced2
   \<and> filter (\<lambda>c. \<not> isWhiteSpace c) spaced1 = filter (\<lambda>c. \<not> isWhiteSpace c) spaced2
   \<and> getCacheKey spaced1 = getCacheKey spaced2
   \<and> cacheLookup (cacheStore Map.empty spaced2 exampleVerdict 0) 0 spaced1 = Some exampleVerdict"
proof -
  have ne: "spaced1 \<noteq> spaced2"
    by (simp add: spaced1_def spaced2_def js_def)
  have same: "filter (\<lambda>c. \<not> isWhiteSpace c) spaced1 = filter (\<lambda>c. \<not> isWhiteSpace c) spaced2"
    by (simp add: spaced1_def spaced2_def js_def isWhiteSpace_def)
  have key: "getCacheKey spaced1 = getCacheKey spaced2"
    by (simp add: getCacheKey_def hashLoop_spaced)
  have hit: "cacheLookup (cacheStore Map.empty spaced2 exampleVerdict 0) 0 spaced1 = Some exampleVerdict"
    by (simp add: cacheLookup_def cacheStore_def key CACHE_DURATION_def)
  from ne same key hit show ?thesis by simp
qed


section \<open>Facts about the classifier client, the hover provider and the scheduler pass\<close>

lemma analyzeCode_Resolved:
  "post c = Resolved dat \<Longrightarrow> analyzeCode post c s = (Inr dat, s\<lparr>requests := requests s @ [c]\<rparr>)"
  by (simp add: analyzeCode_def)

lemma analyzeCode_Rejected:
  "post c = Rejected err \<Longrightarrow>
     analyzeCode post c s =
       (Inl err, s\<lparr>requests := requests s @ [c],
                   console := console s @ [ApiErrorLog err],
                   notifications := notifications s @ [ShowError (apiErrorMessage err)]\<rparr>)"
  by (simp add: analyzeCode_def)

lemma analyzeCode_cache:
  "complexityCache (snd (analyzeCode post c s)) = complexityCache s"
  by (cases "post c") (simp_all add: analyzeCode_def)

lemma update_keeps:
  "requests (updateInlineDecorations clock d s) = requests s
   \<and> complexityCache (updateInlineDecorations clock d s) = complexityCache s
   \<and> notifications (updateInlineDecorations clock d s) = notifications s
   \<and> console (updateInlineDecorations clock d s) = console s
   \<and> inlineEnabled (updateInlineDecorations clock d s) = inlineEnabled s"
  by (simp add: updateInlineDecorations_def split: sum.splits)

lemma hover_cache_dom:
  "dom (complexityCache s) \<subseteq> dom (complexityCache (snd (provideHover post now1 now2 d p s)))"
proof (cases "getFunctionAtPosition d p")
  case (Inl e)
  then show ?thesis by (simp add: provideHover_def)
next
  case (Inr x)
  show ?thesis
  proof (cases x)
    case None
    with Inr show ?thesis by (simp add: provideHover_def)
  next
    case (Some fr)
    show ?thesis
    proof (cases "cacheLookup (complexityCache s) now1 (getTextRange d fr)")
      case hit: (Some r)
      with Inr Some show ?thesis by (simp add: provideHover_def split: sum.splits)
    next
      case None
      show ?thesis
      proof (cases "post (getTextRange d fr)")
        case (Resolved r)
        with Inr Some None show ?thesis
          by (auto simp: provideHover_def analyzeCode_Resolved cacheStore_def Let_def
              split: sum.splits)
      next
        case (Rejected err)
        with Inr Some None show ?thesis
          by (simp add: provideHover_def analyzeCode_Rejected)
      qed
    qed
  qed
qed

lemma positionIn_line: "ls \<noteq> [] \<Longrightarrow> line (positionIn e ls n off) < n + length ls"
  by (induction e ls n off rule: positionIn.induct) auto

lemma positionAt_line: "lines d \<noteq> [] \<Longrightarrow> line (positionAt d i) < lineCount d"
  using positionIn_line [of "lines d" "length (eolText (eol d))" 0 i]
  by (simp add: positionAt_def lineCount_def)

lemma locate_total: "line p < lineCount d \<Longrightarrow> \<exists>x. getFunctionAtPosition d p = Inr x"
  by (cases "regexTest functionRegex (lineText d (line p))")
    (simp_all add: locate_on_start locate_off_start)

lemma createInlineDecoration_null: "createInlineDecoration fr JNull = Inl TypeError"
  by (simp add: createInlineDecoration_def property_def)

lemma createInlineDecoration_Inl: "createInlineDecoration fr r = Inl e \<Longrightarrow> r = JNull"
  by (cases r) (simp_all add: createInlineDecoration_def property_def)

lemma collect_Cons_cases:
  assumes "collectDecorations m clock d k (i # rest) = Inr ds"
  obtains (skip) "collectDecorations m clock d (Suc k) rest = Inr ds"
      and "\<And>fr r. getFunctionAtPosition d (positionAt d i) = Inr (Some fr) \<Longrightarrow>
             cacheLookup m (clock k) (getTextRange d fr) \<noteq> Some r"
    | (hit) fr r dec ds' where "getFunctionAtPosition d (positionAt d i) = Inr (Some fr)"
      and "cacheLookup m (clock k) (getTextRange d fr) = Some r"
      and "createInlineDecoration fr r = Inr dec"
      and "collectDecorations m clock d (Suc k) rest = Inr ds'" and "ds = dec # ds'"
proof (cases "getFunctionAtPosition d (positionAt d i)")
  case (Inl e)
  with assms show ?thesis by simp
next
  case (Inr x)
  show ?thesis
  proof (cases x)
    case None
    with Inr assms show ?thesis by (intro skip) simp_all
  next
    case (Some fr)
    show ?thesis
    proof (cases "cacheLookup m (clock k) (getTextRange d fr)")
      case None
      with Inr Some assms show ?thesis by (intro skip) simp_all
    next
      case found: (Some r)
      with Inr Some assms obtain dec ds' where
        "createInlineDecoration fr r = Inr dec"
        "collectDecorations m clock d (Suc k) rest = Inr ds'" "ds = dec # ds'"
        by (auto split: sum.splits)
      with Inr Some found show ?thesis by (intro hit) simp_all
    qed
  qed
qed

lemma collect_sound:
  "collectDecorations m clock d k is = Inr ds \<Longrightarrow> dec \<in> set ds \<Longrightarrow>
     \<exists>j fr r. j < length is \<and> getFunctionAtPosition d (positionAt d (is ! j)) = Inr (Some fr)
        \<and> cacheLookup m (clock (k + j)) (getTextRange d fr) = Some r
        \<and> createInlineDecoration fr r = Inr dec"
proof (induction "is" arbitrary: k ds)
  case Nil
  then show ?case by simp
next
  case (Cons i rest)
  from Cons.prems(1) show ?case
  proof (cases rule: collect_Cons_cases)
    case skip
    from Cons.IH [OF skip(1) Cons.prems(2)] obtain j fr r where
      "j < length rest" "getFunctionAtPosition d (positionAt d (rest ! j)) = Inr (Some fr)"
      "cacheLookup m (clock (Suc k + j)) (getTextRange d fr) = Some r"
      "createInlineDecoration fr r = Inr dec"
      by blast
    then have "Suc j < length (i # rest)
        \<and> getFunctionAtPosition d (positionAt d ((i # rest) ! Suc j)) = Inr (Some fr)
        \<and> cacheLookup m (clock (k + Suc j)) (getTextRange d fr) = Some r
        \<and> createInlineDecoration fr r = Inr dec"
      by simp
    then show ?thesis by blast
  next
    case (hit fr r dec0 ds')
    show ?thesis
    proof (cases "dec = dec0")
      case True
      with hit have "0 < length (i # rest)
          \<and> getFunctionAtPosition d (positionAt d ((i # rest) ! 0)) = Inr (Some fr)
          \<and> cacheLookup m (clock (k + 0)) (getTextRange d fr) = Some r
          \<and> createInlineDecoration fr r = Inr dec"
        by simp
      then show ?thesis by blast
    next
      case False
      with hit(5) Cons.prems(2) have "dec \<in> set ds'" by simp
      from Cons.IH [OF hit(4) this] obtain j fr' r' where
        "j < length rest" "getFunctionAtPosition d (positionAt d (rest ! j)) = Inr (Some fr')"
        "cacheLookup m (clock (Suc k + j)) (getTextRange d fr') = Some r'"
        "createInlineDecoration fr' r' = Inr dec"
        by blast
      then have "Suc j < length (i # rest)
          \<and> getFunctionAtPosition d (positionAt d ((i # rest) ! Suc j)) = Inr (Some fr')
          \<and> cacheLookup m (clock (k + Suc j)) (getTextRange d fr') = Some r'
          \<and> createInlineDecoration fr' r' = Inr dec"
        by simp
      then show ?thesis by blast
    qed
  qed
qed

lemma collect_complete:
  "collectDecorations m clock d k is = Inr ds \<Longrightarrow> j < length is \<Longrightarrow>
     getFunctionAtPosition d (positionAt d (is ! j)) = Inr (Some fr) \<Longrightarrow>
     cacheLookup m (clock (k + j)) (getTextRange d fr) = Some r \<Longrightarrow>
     \<exists>dec \<in> set ds. createInlineDecoration fr r = Inr dec"
proof (induction "is" arbitrary: k ds j)
  case Nil
  then show ?case by simp
next
  case (Cons i rest)
  from Cons.prems(1) show ?case
  proof (cases rule: collect_Cons_cases)
    case skip
    show ?thesis
    proof (cases j)
      case 0
      with Cons.prems(3,4) skip(2) [of fr r] show ?thesis by simp
    next
      case (Suc j')
      with Cons.prems have "j' < length rest"
        "getFunctionAtPosition d (positionAt d (rest ! j')) = Inr (Some fr)"
        "cacheLookup m (clock (Suc k + j')) (getTextRange d fr) = Some r"
        by simp_all
      from Cons.IH [OF skip(1) this] show ?thesis .
    qed
  next
    case (hit fr0 r0 dec0 ds')
    show ?thesis
    proof (cases j)
      case 0
      with Cons.prems(3,4) hit(1,2) have "fr = fr0" "r = r0" by simp_all
      with hit(3,5) show ?thesis by simp
    next
      case (Suc j')
      with Cons.prems have "j' < length rest"
        "getFunctionAtPosition d (positionAt d (rest ! j')) = Inr (Some fr)"
        "cacheLookup m (clock (Suc k + j')) (getTextRange d fr) = Some r"
        by simp_all
      from Cons.IH [OF hit(4) this] hit(5) show ?thesis by auto
    qed
  qed
qed

lemma collect_length: "collectDecorations m clock d k is = Inr ds \<Longrightarrow> length ds \<le> length is"
proof (induction "is" arbitrary: k ds)
  case Nil
  then show ?case by simp
next
  case (Cons i rest)
  from Cons.prems show ?case
  proof (cases rule: collect_Cons_cases)
    case skip
    from Cons.IH [OF skip(1)] show ?thesis by simp
  next
    case (hit fr r dec ds')
    from Cons.IH [OF hit(4)] hit(5) show ?thesis by simp
  qed
qed

lemma collect_thrown:
  "lines d \<noteq> [] \<Longrightarrow> collectDecorations m clock d k is = Inl e \<Longrightarrow>
     \<exists>j fr. j < length is \<and> getFunctionAtPosition d (positionAt d (is ! j)) = Inr (Some fr)
        \<and> cacheLookup m (clock (k + j)) (getTextRange d fr) = Some JNull"
proof (induction "is" arbitrary: k)
  case Nil
  then show ?case by simp
next
  case (Cons i rest)
  from Cons.prems(1) obtain x where x: "getFunctionAtPosition d (positionAt d i) = Inr x"
    using locate_total positionAt_line by blast
  have step: "\<exists>j fr. j < length (i # rest)
        \<and> getFunctionAtPosition d (positionAt d ((i # rest) ! j)) = Inr (Some fr)
        \<and> cacheLookup m (clock (k + j)) (getTextRange d fr) = Some JNull"
    if "collectDecorations m clock d (Suc k) rest = Inl e"
  proof -
    from Cons.IH [OF Cons.prems(1) that] obtain j fr where
      "j < length rest" "getFunctionAtPosition d (positionAt d (rest ! j)) = Inr (Some fr)"
      "cacheLookup m (clock (Suc k + j)) (getTextRange d fr) = Some JNull"
      by blast
    then have "Suc j < length (i # rest)
        \<and> getFunctionAtPosition d (positionAt d ((i # rest) ! Suc j)) = Inr (Some fr)
        \<and> cacheLookup m (clock (k + Suc j)) (getTextRange d fr) = Some JNull"
      by simp
    then show ?thesis by blast
  qed
  show ?case
  proof (cases x)
    case None
    with x Cons.prems(2) have "collectDecorations m clock d (Suc k) rest = Inl e" by simp
    then show ?thesis by (rule step)
  next
    case (Some fr)
    show ?thesis
    proof (cases "cacheLookup m (clock k) (getTextRange d fr)")
      case None
      with x Some Cons.prems(2) have "collectDecorations m clock d (Suc k) rest = Inl e" by simp
      then show ?thesis by (rule step)
    next
      case found: (Some r)
      show ?thesis
      proof (cases "createInlineDecoration fr r")
        case (Inl e')
        then have "r = JNull" by (rule createInlineDecoration_Inl)
        with x Some found have "0 < length (i # rest)
            \<and> getFunctionAtPosition d (positionAt d ((i # rest) ! 0)) = Inr (Some fr)
            \<and> cacheLookup m (clock (k + 0)) (getTextRange d fr) = Some JNull"
          by simp
        then show ?thesis by blast
      next
        case (Inr dec)
        with x Some found Cons.prems(2) have "collectDecorations m clock d (Suc k) rest = Inl e"
          by (simp split: sum.splits)
        then show ?thesis by (rule step)
      qed
    qed
  qed
qed

lemma showAnalysisResult_keeps:
  "showAnalysisResult r s = Inr s2 \<Longrightarrow>
     requests s2 = requests s \<and> complexityCache s2 = complexityCache s \<and> console s2 = console s"
  by (auto simp: showAnalysisResult_def split: sum.splits)

lemma trim_Nil_iff: "trim s = [] \<longleftrightarrow> list_all isWhiteSpace s"
proof
  assume "trim s = []"
  then have all: "\<forall>x \<in> set (dropWhile isWhiteSpace s). isWhiteSpace x"
    by (simp add: trim_def dropWhile_eq_Nil_conv)
  have "dropWhile isWhiteSpace s = []"
  proof (rule ccontr)
    assume ne: "dropWhile isWhiteSpace s \<noteq> []"
    then have "\<not> isWhiteSpace (hd (dropWhile isWhiteSpace s))" by (rule hd_dropWhile)
    moreover from ne have "hd (dropWhile isWhiteSpace s) \<in> set (dropWhile isWhiteSpace s)" by simp
    ultimately show False using all by blast
  qed
  then show "list_all isWhiteSpace s" by (simp add: dropWhile_eq_Nil_conv list_all_iff)
next
  assume "list_all isWhiteSpace s"
  then have d: "dropWhile isWhiteSpace s = []" by (simp add: dropWhile_eq_Nil_conv list_all_iff)
  show "trim s = []" unfolding trim_def d by simp
qed

lemma foldl_fireTimer:
  "inlineEnabled (analyzer w) \<Longrightarrow>
     inlineEnabled (analyzer (foldl fireTimer w ds))
     \<and> length (passes (foldl fireTimer w ds)) = length (passes w) + length ds
     \<and> timers (foldl fireTimer w ds) = timers w"
proof (induction ds arbitrary: w)
  case Nil
  then show ?case by simp
next
  case (Cons due ds)
  from Cons.prems have e: "inlineEnabled (analyzer (fireTimer w due))"
    by (simp add: fireTimer_def update_keeps)
  from Cons.prems have p: "length (passes (fireTimer w due)) = Suc (length (passes w))"
    and t: "timers (fireTimer w due) = timers w"
    by (simp_all add: fireTimer_def)
  from Cons.IH [OF e] p t show ?case by simp
qed

lemma advance_counts:
  assumes "inlineEnabled (analyzer w)"
  shows "inlineEnabled (analyzer (advance t w))
     \<and> length (passes (advance t w)) + length (timers (advance t w))
         = length (passes w) + length (timers w)"
proof -
  let ?w = "w\<lparr>timers := dropWhile (\<lambda>due. due \<le> t) (timers w)\<rparr>"
  let ?ds = "takeWhile (\<lambda>due. due \<le> t) (timers w)"
  from assms have "inlineEnabled (analyzer ?w)" by simp
  from foldl_fireTimer [OF this, of ?ds]
  have "inlineEnabled (analyzer (advance t w))"
    and "length (passes (advance t w)) = length (passes w) + length ?ds"
    and "timers (advance t w) = dropWhile (\<lambda>due. due \<le> t) (timers w)"
    by (simp_all add: advance_def)
  moreover have "length ?ds + length (dropWhile (\<lambda>due. due \<le> t) (timers w)) = length (timers w)"
    by (metis length_append takeWhile_dropWhile_id)
  ultimately show ?thesis by simp
qed

lemma every_edit_gets_a_pass:
  "inlineEnabled (analyzer w) \<Longrightarrow>
     length (passes (run evs w)) = length (passes w) + length (timers w) + length evs"
proof (induction evs arbitrary: w)
  case Nil
  from Nil have "inlineEnabled (analyzer (w\<lparr>timers := []\<rparr>))" by simp
  from foldl_fireTimer [OF this, of "timers w"] show ?case by simp
next
  case (Cons ev evs)
  obtain t d where ev: "ev = (t, d)" by (cases ev)
  let ?w = "onDidChangeTextDocument t d (advance t w)"
  from advance_counts [OF Cons.prems, of t]
  have e: "inlineEnabled (analyzer ?w)"
    and n: "length (passes ?w) + length (timers ?w) = Suc (length (passes w) + length (timers w))"
    by (simp_all add: onDidChangeTextDocument_def Let_def)
  from Cons.IH [OF e] n ev show ?case by simp
qed


section \<open>Evaluating the examples of the editor's side\<close>

lemma exampleSpan_text:
  "getTextRange exampleDocument exampleSpan = js ''function f() {'' @ 10 # js ''  return 1;'' @ 10 # js ''}''"
  by (simp add: exampleDocument_def exampleSpan_def getTextRange_def js_def)

lemma exampleDocument_text:
  "getText exampleDocument = js ''function f() {'' @ 10 # js ''  return 1;'' @ 10 # js ''}''"
  by (simp add: exampleDocument_def getText_def)

lemma exampleDocument_matches:
  "matchIndices (length (getText exampleDocument)) (None, getText exampleDocument) = [0]"
  by (simp add: exampleDocument_text matchIndices.simps regex_eval)

lemma exampleDocument_trim: "trim (getText exampleDocument) \<noteq> []"
  by (simp add: exampleDocument_text trim_def js_def isWhiteSpace_def)

lemma exampleDocument_first:
  "getFunctionAtPosition exampleDocument (positionAt exampleDocument 0) = Inr (Some exampleSpan)"
proof -
  have "positionAt exampleDocument 0 = \<lparr>line = 0, character = 0\<rparr>"
    by (simp add: positionAt_def exampleDocument_def)
  then show ?thesis by (simp add: exampleDocument_start exampleSpan_def)
qed

lemma exampleVerdict_decoration:
  "createInlineDecoration exampleSpan exampleVerdict = Inr exampleDecoration"
  by (simp add: createInlineDecoration_def property_def exampleVerdict_def exampleSpan_def
      exampleDecoration_def js_def)

lemma cachedState_lookup:
  "cacheLookup (complexityCache cachedState) now (getTextRange exampleDocument exampleSpan)
     = (if now < 300000 then Some exampleVerdict else None)"
  by (simp add: cachedState_def cacheLookup_def cacheStore_def CACHE_DURATION_def)

lemma cachedState_pass:
  "decorations (updateInlineDecorations (\<lambda>k. 1000) exampleDocument cachedState)
     = [exampleDecoration]"
proof -
  have "inlineEnabled cachedState" by (simp add: cachedState_def initialState_def)
  then show ?thesis
    by (simp add: updateInlineDecorations_def exampleDocument_matches exampleDocument_first
        cachedState_lookup exampleVerdict_decoration)
qed

lemma cachedState_late_pass:
  "decorations (updateInlineDecorations (\<lambda>k. 400000) exampleDocument cachedState) = []"
proof -
  have "inlineEnabled cachedState" by (simp add: cachedState_def initialState_def)
  then show ?thesis
    by (simp add: updateInlineDecorations_def exampleDocument_matches exampleDocument_first
        cachedState_lookup)
qed

lemma nullState_lookup:
  "cacheLookup (complexityCache nullState) 1000 (getTextRange exampleDocument exampleSpan)
     = Some JNull"
  by (simp add: nullState_def cacheLookup_def cacheStore_def CACHE_DURATION_def)

section \<open>The annotation cache over time\<close>

text \<open>
  C5. After a store of text c with verdict v at time T, a lookup of c at any time before
  T + CACHE_DURATION gives v, and at any time after T + CACHE_DURATION gives none;
  CACHE_DURATION is 300000 milliseconds, five minutes. No lookup removes an entry: the
  scheduler pass leaves the map as it was, and the hover provider never makes it lose a
  key, so an entry that is too old only reads as absent.
\<close>

theorem cache_ttl:
  "CACHE_DURATION = 300000
   \<and> (now < T + CACHE_DURATION \<longrightarrow> cacheLookup (cacheStore m c v T) now c = Some v)
   \<and> (T + CACHE_DURATION < now \<longrightarrow> cacheLookup (cacheStore m c v T) now c = None)
   \<and> complexityCache (updateInlineDecorations clock d s) = complexityCache s
   \<and> dom (complexityCache s) \<subseteq> dom (complexityCache (snd (provideHover post now1 now2 d p s)))"
proof -
  have "CACHE_DURATION = 300000" by (simp add: CACHE_DURATION_def)
  moreover have "now < T + CACHE_DURATION \<longrightarrow> cacheLookup (cacheStore m c v T) now c = Some v"
    by (simp add: cacheLookup_def cacheStore_def)
  moreover have "T + CACHE_DURATION < now \<longrightarrow> cacheLookup (cacheStore m c v T) now c = None"
    by (simp add: cacheLookup_def cacheStore_def)
  ultimately show ?thesis using update_keeps hover_cache_dom by blast
qed

theorem cache_ttl_witness:
  "cacheLookup (cacheStore Map.empty (js ''f(){}'') exampleVerdict 1000) 300999 (js ''f(){}'')
     = Some exampleVerdict
   \<and> cacheLookup (cacheStore Map.empty (js ''f(){}'') exampleVerdict 1000) 301001 (js ''f(){}'')
     = None
   \<and> complexityCache (updateInlineDecorations (\<lambda>k. 400000) exampleDocument cachedState)
     = complexityCache cachedState"
proof -
  note early = cache_ttl [where now = 300999 and T = 1000 and m = Map.empty and c = "js ''f(){}''"
      and v = exampleVerdict and clock = "\<lambda>k. 400000" and d = exampleDocument
      and s = cachedState and post = failingPost and ?now1.0 = 0 and ?now2.0 = 0
      and p = "\<lparr>line = 0, character = 0\<rparr>"]
  note late = cache_ttl [where now = 301001 and T = 1000 and m = Map.empty and c = "js ''f(){}''"
      and v = exampleVerdict and clock = "\<lambda>k. 400000" and d = exampleDocument
      and s = cachedState and post = failingPost and ?now1.0 = 0 and ?now2.0 = 0
      and p = "\<lparr>line = 0, character = 0\<rparr>"]
  from early have ttl: "CACHE_DURATION = 300000" by (rule conjunct1)
  from early ttl
  have a: "cacheLookup (cacheStore Map.empty (js ''f(){}'') exampleVerdict 1000) 300999 (js ''f(){}'')
     = Some exampleVerdict"
    by (simp only:)
  from late ttl
  have b: "cacheLookup (cacheStore Map.empty (js ''f(){}'') exampleVerdict 1000) 301001 (js ''f(){}'')
     = None"
    by (simp only:)
  from early have c: "complexityCache (updateInlineDecorations (\<lambda>k. 400000) exampleDocument cachedState)
     = complexityCache cachedState"
    by blast
  from a b c show ?thesis by (simp only: simp_thms)
qed

section \<open>The classifier client\<close>

text \<open>
  C9, as the code has it. analyzeCode checks nothing about the response: the data of
  every successful response is returned as it is, whatever its shape. It fails only
  when the request itself is rejected, and then with the request's own error, after
  writing it to the console and showing one error notification; there are no separate
  kinds of error for an unreachable endpoint, rejected credentials or a response that
  cannot be interpreted.
\<close>

theorem analyzeCode_returns_data_unchecked:
  "(post c = Resolved dat \<longrightarrow>
      analyzeCode post c s = (Inr dat, s\<lparr>requests := requests s @ [c]\<rparr>))
   \<and> (post c = Rejected err \<longrightarrow>
      fst (analyzeCode post c s) = Inl err
      \<and> requests (snd (analyzeCode post c s)) = requests s @ [c]
      \<and> console (snd (analyzeCode post c s)) = console s @ [ApiErrorLog err]
      \<and> notifications (snd (analyzeCode post c s))
          = notifications s @ [ShowError (apiErrorMessage err)])"
  by (simp add: analyzeCode_Resolved analyzeCode_Rejected)

theorem analyzeCode_returns_data_unchecked_witness:
  "fst (analyzeCode (\<lambda>c. Resolved exampleVerdict) (js ''f(){}'') initialState) = Inr exampleVerdict
   \<and> fst (analyzeCode failingPost (js ''f(){}'') initialState) = Inl networkError
   \<and> notifications (snd (analyzeCode failingPost (js ''f(){}'') initialState))
       = [ShowError (js ''API Error: Network Error. Check your API key in settings.'')]"
  using analyzeCode_returns_data_unchecked
      [of "\<lambda>c. Resolved exampleVerdict" "js ''f(){}''" exampleVerdict initialState]
    analyzeCode_returns_data_unchecked
      [of failingPost "js ''f(){}''" _ initialState networkError]
  by (simp add: failingPost_def initialState_def apiErrorMessage_def errorMsg_def
      networkError_def js_def)

text \<open>
  The claim C9 as stated fails: a response whose data is not a ComplexityResult is
  returned as a success.
\<close>

theorem unvalidated_response_counterexample:
  "analyzeCode (\<lambda>c. Resolved malformedResponse) (js ''f(){}'') initialState
     = (Inr malformedResponse, initialState\<lparr>requests := [js ''f(){}'']\<rparr>)
   \<and> \<not> isComplexityResult malformedResponse"
  by (simp add: analyzeCode_def initialState_def malformedResponse_def isComplexityResult_def
      isComplexityName_def js_def)

section \<open>Failures of the classifier on the hover path\<close>

text \<open>
  C3, as the code has it. A hover over a located function whose text is not in the cache
  asks the classifier. When the request is rejected, the hover returns no result, the
  cache is left as it was, and the hover provider itself only writes to the console;
  but analyzeCode has by then shown its error notification, so one visible notification
  naming the cause is produced on this path. When the request succeeds with data that
  createHoverMarkdown cannot format, the hover returns no result either, with one entry
  in the console and no notification, and the data has been stored in the cache. Manual
  analysis shows the notification of analyzeCode for a rejected request as well, after
  its progress notification.
\<close>

theorem hover_failure_notifies:
  assumes "getFunctionAtPosition d p = Inr (Some functionRange)"
    and "cacheLookup (complexityCache s) now1 (getTextRange d functionRange) = None"
  shows "(post (getTextRange d functionRange) = Rejected err \<longrightarrow>
        fst (provideHover post now1 now2 d p s) = Inr None
        \<and> notifications (snd (provideHover post now1 now2 d p s))
            = notifications s @ [ShowError (apiErrorMessage err)]
        \<and> console (snd (provideHover post now1 now2 d p s))
            = console s @ [ApiErrorLog err, HoverFailedLog (RequestError err)]
        \<and> complexityCache (snd (provideHover post now1 now2 d p s)) = complexityCache s
        \<and> requests (snd (provideHover post now1 now2 d p s))
            = requests s @ [getTextRange d functionRange])
     \<and> (post (getTextRange d functionRange) = Resolved dat \<and> createHoverMarkdown dat = Inl e \<longrightarrow>
        fst (provideHover post now1 now2 d p s) = Inr None
        \<and> notifications (snd (provideHover post now1 now2 d p s)) = notifications s
        \<and> console (snd (provideHover post now1 now2 d p s)) = console s @ [HoverFailedLog e]
        \<and> complexityCache (snd (provideHover post now1 now2 d p s))
            = cacheStore (complexityCache s) (getTextRange d functionRange) dat now2
        \<and> requests (snd (provideHover post now1 now2 d p s))
            = requests s @ [getTextRange d functionRange])
     \<and> (trim (selectedText ed) \<noteq> [] \<and> post (selectedText ed) = Rejected err \<longrightarrow>
          notifications (analyzeSelection post (Some ed) s)
            = notifications s @ [ShowProgress (js ''Analyzing code complexity...''),
                                 ShowError (apiErrorMessage err)])"
proof -
  have rejected:
    "provideHover post now1 now2 d p s =
       (Inr None, s\<lparr>requests := requests s @ [getTextRange d functionRange],
                    console := console s @ [ApiErrorLog err, HoverFailedLog (RequestError err)],
                    notifications := notifications s @ [ShowError (apiErrorMessage err)]\<rparr>)"
    if "post (getTextRange d functionRange) = Rejected err"
    using assms that by (simp add: provideHover_def analyzeCode_Rejected)
  have malformed:
    "provideHover post now1 now2 d p s =
       (Inr None, s\<lparr>requests := requests s @ [getTextRange d functionRange],
                    complexityCache :=
                      cacheStore (complexityCache s) (getTextRange d functionRange) dat now2,
                    console := console s @ [HoverFailedLog e]\<rparr>)"
    if "post (getTextRange d functionRange) = Resolved dat" and "createHoverMarkdown dat = Inl e"
    using assms that by (simp add: provideHover_def analyzeCode_Resolved Let_def)
  have manual: "notifications (analyzeSelection post (Some ed) s)
            = notifications s @ [ShowProgress (js ''Analyzing code complexity...''),
                                 ShowError (apiErrorMessage err)]"
    if "trim (selectedText ed) \<noteq> []" and "post (selectedText ed) = Rejected err"
    using that by (simp add: analyzeSelection_def analyzeCode_Rejected)
  from rejected malformed manual show ?thesis by simp
qed

theorem hover_failure_notifies_witness:
  "getFunctionAtPosition exampleDocument \<lparr>line = 0, character = 0\<rparr> = Inr (Some exampleSpan)
   \<and> cacheLookup (complexityCache initialState) 0 (getTextRange exampleDocument exampleSpan) = None
   \<and> failingPost (getTextRange exampleDocument exampleSpan) = Rejected networkError
   \<and> fst (provideHover failingPost 0 0 exampleDocument \<lparr>line = 0, character = 0\<rparr> initialState)
       = Inr None
   \<and> notifications
        (snd (provideHover failingPost 0 0 exampleDocument \<lparr>line = 0, character = 0\<rparr> initialState))
       = [ShowError (apiErrorMessage networkError)]
   \<and> malformedPost (getTextRange exampleDocument exampleSpan) = Resolved malformedResponse
   \<and> createHoverMarkdown malformedResponse = Inl TypeError
   \<and> fst (provideHover malformedPost 0 5 exampleDocument \<lparr>line = 0, character = 0\<rparr> initialState)
       = Inr None
   \<and> notifications
        (snd (provideHover malformedPost 0 5 exampleDocument \<lparr>line = 0, character = 0\<rparr> initialState))
       = []
   \<and> console
        (snd (provideHover malformedPost 0 5 exampleDocument \<lparr>line = 0, character = 0\<rparr> initialState))
       = [HoverFailedLog TypeError]
   \<and> cacheLookup
        (complexityCache
          (snd (provideHover malformedPost 0 5 exampleDocument \<lparr>line = 0, character = 0\<rparr>
                 initialState)))
        5 (getTextRange exampleDocument exampleSpan)
       = Some malformedResponse"
proof -
  have l: "getFunctionAtPosition exampleDocument \<lparr>line = 0, character = 0\<rparr> = Inr (Some exampleSpan)"
    by (simp add: exampleDocument_start exampleSpan_def)
  have c: "cacheLookup (complexityCache initialState) 0 (getTextRange exampleDocument exampleSpan) = None"
    by (simp add: initialState_def cacheLookup_def)
  have f: "failingPost (getTextRange exampleDocument exampleSpan) = Rejected networkError"
    by (simp add: failingPost_def)
  have g: "malformedPost (getTextRange exampleDocument exampleSpan) = Resolved malformedResponse"
    by (simp add: malformedPost_def)
  have t: "createHoverMarkdown malformedResponse = Inl TypeError"
    by (simp add: createHoverMarkdown_def property_def callToUpperCase_def malformedResponse_def
        js_def)
  have i: "notifications initialState = []" "console initialState = []"
    "complexityCache initialState = Map.empty"
    by (simp_all add: initialState_def)
  note r = hover_failure_notifies [where post = failingPost and d = exampleDocument
      and p = "\<lparr>line = 0, character = 0\<rparr>" and functionRange = exampleSpan
      and s = initialState and ?now1.0 = 0 and ?now2.0 = 0 and err = networkError
      and dat = malformedResponse and e = TypeError and ed = exampleEditor, OF l c]
  note m = hover_failure_notifies [where post = malformedPost and d = exampleDocument
      and p = "\<lparr>line = 0, character = 0\<rparr>" and functionRange = exampleSpan
      and s = initialState and ?now1.0 = 0 and ?now2.0 = 5 and err = networkError
      and dat = malformedResponse and e = TypeError and ed = exampleEditor, OF l c]
  from r f i have a: "fst (provideHover failingPost 0 0 exampleDocument \<lparr>line = 0, character = 0\<rparr>
        initialState) = Inr None
      \<and> notifications (snd (provideHover failingPost 0 0 exampleDocument
            \<lparr>line = 0, character = 0\<rparr> initialState)) = [ShowError (apiErrorMessage networkError)]"
    by simp
  from m g t i have b: "fst (provideHover malformedPost 0 5 exampleDocument
        \<lparr>line = 0, character = 0\<rparr> initialState) = Inr None
      \<and> notifications (snd (provideHover malformedPost 0 5 exampleDocument
            \<lparr>line = 0, character = 0\<rparr> initialState)) = []
      \<and> console (snd (provideHover malformedPost 0 5 exampleDocument
            \<lparr>line = 0, character = 0\<rparr> initialState)) = [HoverFailedLog TypeError]
      \<and> complexityCache (snd (provideHover malformedPost 0 5 exampleDocument
            \<lparr>line = 0, character = 0\<rparr> initialState))
          = cacheStore Map.empty (getTextRange exampleDocument exampleSpan) malformedResponse 5"
    by simp
  have h: "cacheLookup
      (cacheStore Map.empty (getTextRange exampleDocument exampleSpan) malformedResponse 5)
      5 (getTextRange exampleDocument exampleSpan) = Some malformedResponse"
    by (simp add: cacheLookup_def cacheStore_def CACHE_DURATION_def)
  from l c f g t a b h show ?thesis by simp
qed

text \<open>
  The claim C3 as stated fails: a hover over the function of exampleDocument, with an
  empty cache and a classifier that cannot be reached, shows an error notification.
\<close>

theorem hover_notification_counterexample:
  "provideHover failingPost 0 0 exampleDocument \<lparr>line = 0, character = 0\<rparr> initialState =
     (Inr None,
      initialState
        \<lparr>requests := [js ''function f() {'' @ 10 # js ''  return 1;'' @ 10 # js ''}''],
         console := [ApiErrorLog networkError, HoverFailedLog (RequestError networkError)],
         notifications := [ShowError (js ''API Error: Network Error. Check your API key in settings.'')]\<rparr>)"
proof -
  have l: "getFunctionAtPosition exampleDocument \<lparr>line = 0, character = 0\<rparr> = Inr (Some exampleSpan)"
    by (simp add: exampleDocument_start exampleSpan_def)
  have m: "apiErrorMessage networkError = js ''API Error: Network Error. Check your API key in settings.''"
    by (simp add: apiErrorMessage_def errorMsg_def networkError_def js_def)
  have a: "analyzeCode failingPost c initialState =
      (Inl networkError,
       initialState\<lparr>requests := [c], console := [ApiErrorLog networkError],
         notifications := [ShowError (js ''API Error: Network Error. Check your API key in settings.'')]\<rparr>)"
    for c
    by (simp add: analyzeCode_def failingPost_def m) (simp add: initialState_def)
  have c: "cacheLookup (complexityCache initialState) 0 x = None" for x
    by (simp add: initialState_def cacheLookup_def)
  show ?thesis
    by (simp add: provideHover_def l c a exampleSpan_text)
qed

section \<open>The scheduler pass\<close>

text \<open>
  C4, as the code has it. A pass of updateInlineDecorations posts nothing to the
  classifier and changes neither the cache, the notifications nor the console. With
  inline analysis enabled (otherwise the pass returns at once), on a document with a
  line, as every document of the editor has: if for some match of the start pattern the
  located span has the result null in the cache, not too old at that lookup, then
  createInlineDecoration throws and the decorations stay as they were. Otherwise the pass
  replaces the decorations, whatever they were: every decoration it sets is the one of a
  span located at a match whose text has a result in the cache that is not too old at
  the time of that lookup, every such result is rendered, and a span whose text has no
  entry, or one too old, gets nothing.
\<close>

theorem scheduler_pass_cache_only:
  "requests (updateInlineDecorations clock d s) = requests s
   \<and> complexityCache (updateInlineDecorations clock d s) = complexityCache s
   \<and> notifications (updateInlineDecorations clock d s) = notifications s
   \<and> console (updateInlineDecorations clock d s) = console s
   \<and> (inlineEnabled s \<and> lines d \<noteq> [] \<longrightarrow>
        ((\<exists>j fr. cacheHit (complexityCache s) clock d j fr JNull) \<longrightarrow>
           decorations (updateInlineDecorations clock d s) = decorations s)
        \<and> ((\<forall>j fr. \<not> cacheHit (complexityCache s) clock d j fr JNull) \<longrightarrow>
           (\<forall>dec \<in> set (decorations (updateInlineDecorations clock d s)).
              \<exists>j fr r. cacheHit (complexityCache s) clock d j fr r
                \<and> createInlineDecoration fr r = Inr dec)
           \<and> (\<forall>j fr r. cacheHit (complexityCache s) clock d j fr r \<longrightarrow>
                (\<exists>dec \<in> set (decorations (updateInlineDecorations clock d s)).
                   createInlineDecoration fr r = Inr dec))
           \<and> length (decorations (updateInlineDecorations clock d s))
               \<le> length (matchIndices (length (getText d)) (None, getText d))
           \<and> decorations (updateInlineDecorations clock d (s\<lparr>decorations := earlier\<rparr>))
               = decorations (updateInlineDecorations clock d s)))"
proof (cases "inlineEnabled s \<and> lines d \<noteq> []")
  case False
  with update_keeps [of clock d s] show ?thesis by blast
next
  case True
  then have enabled: "inlineEnabled s" and nonempty: "lines d \<noteq> []" by simp_all
  let ?is = "matchIndices (length (getText d)) (None, getText d)"
  let ?m = "complexityCache s"
  show ?thesis
  proof (cases "collectDecorations ?m clock d 0 ?is")
    case (Inl e)
    from collect_thrown [OF nonempty Inl] have null: "\<exists>j fr. cacheHit ?m clock d j fr JNull"
      by (simp add: cacheHit_def)
    from Inl enabled have "decorations (updateInlineDecorations clock d s) = decorations s"
      by (simp add: updateInlineDecorations_def)
    with null update_keeps [of clock d s] show ?thesis by blast
  next
    case (Inr ds)
    with enabled have new: "decorations (updateInlineDecorations clock d s) = ds"
      by (simp add: updateInlineDecorations_def)
    from Inr enabled have same:
      "decorations (updateInlineDecorations clock d (s\<lparr>decorations := earlier\<rparr>)) = ds"
      by (simp add: updateInlineDecorations_def)
    have sound: "\<forall>dec \<in> set ds. \<exists>j fr r. cacheHit ?m clock d j fr r
        \<and> createInlineDecoration fr r = Inr dec"
    proof
      fix dec assume "dec \<in> set ds"
      from collect_sound [OF Inr this] show "\<exists>j fr r. cacheHit ?m clock d j fr r
          \<and> createInlineDecoration fr r = Inr dec"
        by (simp add: cacheHit_def)
    qed
    have complete: "\<exists>dec \<in> set ds. createInlineDecoration fr r = Inr dec"
      if "cacheHit ?m clock d j fr r" for j fr r
      using that collect_complete [OF Inr, of j fr r] by (simp add: cacheHit_def)
    have nonull: "\<not> cacheHit ?m clock d j fr JNull" for j fr
    proof
      assume "cacheHit ?m clock d j fr JNull"
      from complete [OF this] show False by (simp add: createInlineDecoration_null)
    qed
    from collect_length [OF Inr] have short: "length ds \<le> length ?is" .
    from new same sound complete nonull short update_keeps [of clock d s]
    show ?thesis by (simp only:) blast
  qed
qed

theorem scheduler_pass_cache_only_witness:
  "inlineEnabled cachedState \<and> lines exampleDocument \<noteq> []
   \<and> cacheHit (complexityCache cachedState) (\<lambda>k. 1000) exampleDocument 0 exampleSpan exampleVerdict
   \<and> createInlineDecoration exampleSpan exampleVerdict = Inr exampleDecoration
   \<and> requests (updateInlineDecorations (\<lambda>k. 1000) exampleDocument cachedState) = []
   \<and> decorations (updateInlineDecorations (\<lambda>k. 1000) exampleDocument cachedState)
       = [exampleDecoration]
   \<and> decorations (updateInlineDecorations (\<lambda>k. 1000) exampleDocument
        (cachedState\<lparr>decorations := [staleDecoration]\<rparr>))
       = [exampleDecoration]
   \<and> decorations (updateInlineDecorations (\<lambda>k. 400000) exampleDocument cachedState) = []"
proof -
  have e: "inlineEnabled cachedState" by (simp add: cachedState_def initialState_def)
  have n: "lines exampleDocument \<noteq> []" by (simp add: exampleDocument_def)
  have r: "requests cachedState = []" by (simp add: cachedState_def initialState_def)
  have h: "cacheHit (complexityCache cachedState) (\<lambda>k. 1000) exampleDocument 0 exampleSpan
      exampleVerdict"
    by (simp add: cacheHit_def exampleDocument_matches exampleDocument_first cachedState_lookup)
  have z: "\<not> cacheHit (complexityCache cachedState) (\<lambda>k. 1000) exampleDocument j fr JNull"
    for j fr
    by (auto simp: cacheHit_def exampleDocument_matches exampleDocument_first cachedState_lookup
        exampleVerdict_def)
  note t = scheduler_pass_cache_only [where clock = "\<lambda>k. 1000" and d = exampleDocument
      and s = cachedState and earlier = "[staleDecoration]"]
  from t e n z have "decorations (updateInlineDecorations (\<lambda>k. 1000) exampleDocument
        (cachedState\<lparr>decorations := [staleDecoration]\<rparr>))
      = decorations (updateInlineDecorations (\<lambda>k. 1000) exampleDocument cachedState)"
    by blast
  moreover from t r have "requests (updateInlineDecorations (\<lambda>k. 1000) exampleDocument cachedState) = []"
    by simp
  ultimately show ?thesis
    using e n h exampleVerdict_decoration cachedState_pass cachedState_late_pass by simp
qed

text \<open>
  The claim C4 as stated fails: a hover over the example function that the service
  answers with null leaves null in the cache, and the pass that follows sets nothing:
  the marker of an earlier pass stays, although it belongs to no entry of the cache.
\<close>

theorem null_result_pass_counterexample:
  "provideHover nullPost 0 0 exampleDocument \<lparr>line = 0, character = 0\<rparr> staleState
     = (Inr None, nullState)
   \<and> cacheLookup (complexityCache nullState) 1000 (getTextRange exampleDocument exampleSpan)
     = Some JNull
   \<and> decorations (updateInlineDecorations (\<lambda>k. 1000) exampleDocument nullState)
     = [staleDecoration]"
proof -
  have l: "getFunctionAtPosition exampleDocument \<lparr>line = 0, character = 0\<rparr> = Inr (Some exampleSpan)"
    by (simp add: exampleDocument_start exampleSpan_def)
  have c: "cacheLookup (complexityCache staleState) 0 x = None" for x
    by (simp add: staleState_def initialState_def cacheLookup_def)
  have t: "createHoverMarkdown JNull = Inl TypeError"
    by (simp add: createHoverMarkdown_def property_def)
  have a: "analyzeCode nullPost x staleState = (Inr JNull, staleState\<lparr>requests := [x]\<rparr>)" for x
    by (simp add: analyzeCode_def nullPost_def) (simp add: staleState_def initialState_def)
  have hover: "provideHover nullPost 0 0 exampleDocument \<lparr>line = 0, character = 0\<rparr> staleState
     = (Inr None, nullState)"
    by (simp add: provideHover_def l c a t Let_def)
      (simp add: nullState_def staleState_def initialState_def)
  have e: "inlineEnabled nullState"
    by (simp add: nullState_def staleState_def initialState_def)
  have d: "decorations nullState = [staleDecoration]"
    by (simp add: nullState_def staleState_def)
  from e d have pass: "decorations (updateInlineDecorations (\<lambda>k. 1000) exampleDocument nullState)
     = [staleDecoration]"
    by (simp add: updateInlineDecorations_def exampleDocument_matches exampleDocument_first
        nullState_lookup createInlineDecoration_null)
  from hover nullState_lookup pass show ?thesis by simp
qed

section \<open>Manual analysis\<close>

text \<open>
  C10. With an active editor whose selection is empty, analyzeSelection takes the text
  of the whole document, and posts it to the classifier unless it is empty or white
  space only. Whenever the text it takes (the selection, or the whole document) is
  empty or white space only, it shows the error No code selected, posts nothing, and
  leaves the cache as it was.
\<close>

theorem analyzeSelection_input:
  "(rstart (selection ed) = rend (selection ed) \<longrightarrow>
      selectedText ed = getText (document ed)
      \<and> (\<not> list_all isWhiteSpace (getText (document ed)) \<longrightarrow>
           requests (analyzeSelection post (Some ed) s) = requests s @ [getText (document ed)]))
   \<and> (list_all isWhiteSpace (selectedText ed) \<longrightarrow>
      notifications (analyzeSelection post (Some ed) s)
        = notifications s @ [ShowError (js ''No code selected'')]
      \<and> requests (analyzeSelection post (Some ed) s) = requests s
      \<and> complexityCache (analyzeSelection post (Some ed) s) = complexityCache s)"
proof -
  have whole: "selectedText ed = getText (document ed)"
    if "rstart (selection ed) = rend (selection ed)"
    using that by (simp add: selectedText_def)
  have posted: "requests (analyzeSelection post (Some ed) s) = requests s @ [selectedText ed]"
    if "\<not> list_all isWhiteSpace (selectedText ed)"
  proof -
    from that have t: "trim (selectedText ed) \<noteq> []" by (simp add: trim_Nil_iff)
    show ?thesis
    proof (cases "post (selectedText ed)")
      case (Resolved r)
      let ?s1 = "s\<lparr>notifications :=
                     notifications s @ [ShowProgress (js ''Analyzing code complexity...'')],
                   requests := requests s @ [selectedText ed]\<rparr>"
      from t Resolved have run: "analyzeSelection post (Some ed) s =
          (case showAnalysisResult r ?s1 of Inl e \<Rightarrow> ?s1 | Inr s2 \<Rightarrow> s2)"
        by (simp add: analyzeSelection_def analyzeCode_Resolved Let_def cong: sum.case_cong)
      show ?thesis
      proof (cases "showAnalysisResult r ?s1")
        case (Inl e)
        with run show ?thesis by simp
      next
        case (Inr s2)
        from showAnalysisResult_keeps [OF Inr] run Inr show ?thesis by simp
      qed
    next
      case (Rejected err)
      with t show ?thesis
        by (simp add: analyzeSelection_def analyzeCode_Rejected)
    qed
  qed
  have blank: "notifications (analyzeSelection post (Some ed) s)
        = notifications s @ [ShowError (js ''No code selected'')]
      \<and> requests (analyzeSelection post (Some ed) s) = requests s
      \<and> complexityCache (analyzeSelection post (Some ed) s) = complexityCache s"
    if "list_all isWhiteSpace (selectedText ed)"
  proof -
    from that have "trim (selectedText ed) = []" by (simp add: trim_Nil_iff)
    then show ?thesis by (simp add: analyzeSelection_def)
  qed
  from whole posted blank show ?thesis by metis
qed

theorem analyzeSelection_input_witness:
  "rstart (selection exampleEditor) = rend (selection exampleEditor)
   \<and> \<not> list_all isWhiteSpace (getText (document exampleEditor))
   \<and> requests (analyzeSelection failingPost (Some exampleEditor) initialState)
       = [getText exampleDocument]
   \<and> list_all isWhiteSpace (selectedText blankEditor)
   \<and> notifications (analyzeSelection failingPost (Some blankEditor) initialState)
       = [ShowError (js ''No code selected'')]
   \<and> requests (analyzeSelection failingPost (Some blankEditor) initialState) = []"
proof -
  have e: "rstart (selection exampleEditor) = rend (selection exampleEditor)"
    by (simp add: exampleEditor_def)
  have n: "\<not> list_all isWhiteSpace (getText (document exampleEditor))"
    using exampleDocument_trim by (simp add: exampleEditor_def trim_Nil_iff)
  have b: "list_all isWhiteSpace (selectedText blankEditor)"
    by (simp add: selectedText_def blankEditor_def blankDocument_def getTextRange_def js_def
        isWhiteSpace_def)
  from analyzeSelection_input [of exampleEditor failingPost initialState]
    analyzeSelection_input [of blankEditor failingPost initialState] e n b
  show ?thesis by (simp add: initialState_def exampleEditor_def)
qed

section \<open>The change listener\<close>

text \<open>
  C2. The listener of lines 276-282 sets a timer for every change and cancels none, so
  every change gets a pass of its own, 500 ms after it. Two changes of the active
  document, at 0 ms and at 100 ms, are followed by two passes, at 500 ms and at 600 ms,
  where the claim has exactly one.
\<close>

theorem two_edits_two_passes:
  "passes (run [(0, unterminatedDocument), (100, exampleDocument)] exampleWorld)
     = [(500, exampleDocument), (600, exampleDocument)]"
  by (simp add: exampleWorld_def initialState_def advance_def onDidChangeTextDocument_def
      fireTimer_def update_keeps)


end
